theory Spec2Isabelle
  imports Main
begin

section \<open>JavaScript values\<close>

text \<open>
  The retry transport inspects only the truthiness of a rejection value and of its
  \<open>status\<close> property. Values are modelled far enough for that test: the primitives,
  and objects as lists of named properties. Numbers are integers plus \<open>NaN\<close>.
\<close>

datatype jsval =
    JUndefined
  | JNull
  | JBool bool
  | JNum int
  | JNaN
  | JStr string
  | JObject "(string \<times> jsval) list"

fun truthy :: "jsval \<Rightarrow> bool" where
  "truthy JUndefined = False"
| "truthy JNull = False"
| "truthy (JBool b) = b"
| "truthy (JNum n) = (n \<noteq> 0)"
| "truthy JNaN = False"
| "truthy (JStr s) = (s \<noteq> [])"
| "truthy (JObject fs) = True"

text \<open>
  Property read \<open>v.name\<close> on a value that is neither \<open>null\<close> nor \<open>undefined\<close>:
  an object yields the stored property or \<open>undefined\<close>; a primitive has no own
  property of that name. Every read in the source is guarded by the truthiness of \<open>v\<close>.
\<close>

fun get_prop :: "jsval \<Rightarrow> string \<Rightarrow> jsval" where
  "get_prop (JObject fs) name = (case map_of fs name of Some v \<Rightarrow> v | None \<Rightarrow> JUndefined)"
| "get_prop v name = JUndefined"

text \<open>The operator \<open>a && b\<close>: \<open>a\<close> when it is falsy, else \<open>b\<close>.\<close>

definition js_and :: "jsval \<Rightarrow> jsval \<Rightarrow> jsval" where
  "js_and a b = (if truthy a then b else a)"

section \<open>Data model\<close>

datatype verb = Get | Post | Put | Delete | Patch | Head | Options

datatype error = Error string | TypeError string

record policy =
  retryLimit :: int

text \<open>
  The call record built by \<open>transportMethod\<close>. Its \<open>resolve\<close> and \<open>reject\<close> fields are
  the two continuations of one deferred result; \<open>promise\<close> names that deferred result.
\<close>

record transportCall =
  "method" :: verb
  args :: "jsval list"
  promise :: nat
  retryCount :: int

text \<open>
  The wrapped transport, seen from the outside: the invocations it has received, in
  order, and how often it was disposed. The deferred result of invocation number \<open>k\<close>
  (counted from 0) is identified by \<open>k\<close>.
\<close>

record transport =
  calls :: "(verb \<times> jsval list) list"
  disposed :: nat

definition invoke :: "verb \<Rightarrow> jsval list \<Rightarrow> transport \<Rightarrow> nat \<times> transport" where
  "invoke m as tr = (length (calls tr), tr\<lparr>calls := calls tr @ [(m, as)]\<rparr>)"

definition transport_dispose :: "transport \<Rightarrow> transport" where
  "transport_dispose tr = tr\<lparr>disposed := Suc (disposed tr)\<rparr>"

record options =
  opt_retryTimeout :: "int option"
  opt_methods :: "(verb \<rightharpoonup> policy) option"

text \<open>The fields the constructor assigns on \<open>this\<close>.\<close>

record retry_transport =
  retryTimeout :: int
  methods :: "verb \<rightharpoonup> policy"
  transport :: transport
  failedCalls :: "transportCall list"
  retryTimer :: "nat option"

text \<open>
  What a continuation was called with. The success continuation receives the
  transport's value; the argument list handed to the rejecter may hold a call record.
\<close>

datatype argument = Val jsval | CallRecord transportCall

datatype settlement = Resolved nat jsval | Rejected nat "argument list"

fun settled_promise :: "settlement \<Rightarrow> nat" where
  "settled_promise (Resolved p v) = p"
| "settled_promise (Rejected p as) = p"

text \<open>
  The retry transport together with its host:
  \<^item> \<open>thens\<close>: the reaction registered with \<open>.then\<close> on the deferred result of an
    invocation, that is the call record its two callbacks close over; the reaction is
    removed when it runs, since a deferred result settles once;
  \<^item> \<open>timers\<close>: the timeouts scheduled with \<open>setTimeout\<close> and not yet fired, with their
    delay; every one of them runs \<open>retryFailedCalls\<close>;
  \<^item> \<open>settled\<close>: the continuations of callers invoked so far, in order;
  \<^item> \<open>next_timer\<close>, \<open>next_promise\<close>: the next timer handle and deferred result.
  Timer handles are never falsy (a positive integer in a browser, an object in Node),
  so \<open>null\<close> is the only falsy value \<open>retryTimer\<close> takes.
\<close>

record world = retry_transport +
  thens :: "nat \<rightharpoonup> transportCall"
  timers :: "nat \<rightharpoonup> int"
  next_timer :: nat
  settled :: "settlement list"
  next_promise :: nat

section \<open>Construction\<close>

definition TransportRetry :: "transport option \<Rightarrow> options option \<Rightarrow> error + retry_transport" where
  "TransportRetry transport_arg options_arg =
     (case transport_arg of
        None \<Rightarrow> Inl (Error ''Missing required parameter: transport in TransportRetry'')
      | Some tr \<Rightarrow>
          Inr \<lparr> retryTimeout =
                  (case options_arg of
                     None \<Rightarrow> 0
                   | Some opts \<Rightarrow>
                       (case opt_retryTimeout opts of
                          None \<Rightarrow> 0
                        | Some t \<Rightarrow> if t > 0 then t else 0)),
                methods =
                  (case options_arg of
                     None \<Rightarrow> Map.empty
                   | Some opts \<Rightarrow>
                       (case opt_methods opts of None \<Rightarrow> Map.empty | Some ms \<Rightarrow> ms)),
                transport = tr,
                failedCalls = [],
                retryTimer = None \<rparr>)"

text \<open>A freshly constructed instance in a host with nothing scheduled.\<close>

definition boot :: "retry_transport \<Rightarrow> world" where
  "boot obj =
     \<lparr> retryTimeout = retryTimeout obj, methods = methods obj, transport = transport obj,
       failedCalls = failedCalls obj, retryTimer = retryTimer obj,
       thens = Map.empty, timers = Map.empty, next_timer = 1, settled = [],
       next_promise = 0 \<rparr>"

section \<open>Operations\<close>

text \<open>
  \<open>sendTransportCall\<close>: invoke the wrapped transport's operation and register the
  two callbacks on the deferred result it returns. They run later, when that result
  settles (\<open>on_fulfilled\<close>, \<open>on_rejected\<close>).
\<close>

definition sendTransportCall :: "transportCall \<Rightarrow> world \<Rightarrow> world" where
  "sendTransportCall transportCall w =
     (let (k, tr) = invoke (method transportCall) (args transportCall) (transport w)
      in w\<lparr>transport := tr, thens := (thens w)(k \<mapsto> transportCall)\<rparr>)"

definition addFailedCall :: "transportCall \<Rightarrow> world \<Rightarrow> world" where
  "addFailedCall transportCall w =
     (let c = transportCall\<lparr>retryCount := retryCount transportCall + 1\<rparr>;
          w1 = w\<lparr>failedCalls := failedCalls w @ [c]\<rparr>
      in case retryTimer w1 of
           None \<Rightarrow> w1\<lparr>retryTimer := Some (next_timer w1),
                      timers := (timers w1)(next_timer w1 \<mapsto> retryTimeout w1),
                      next_timer := Suc (next_timer w1)\<rparr>
         | Some h \<Rightarrow> w1)"

text \<open>The first callback is \<open>transportCall.resolve\<close> itself.\<close>

definition on_fulfilled :: "transportCall \<Rightarrow> jsval \<Rightarrow> world \<Rightarrow> world" where
  "on_fulfilled transportCall v w =
     w\<lparr>settled := settled w @ [Resolved (promise transportCall) v]\<rparr>"

text \<open>
  The second callback is an arrow function, which has no \<open>arguments\<close> of its own: the
  \<open>arguments\<close> it applies the rejecter to are those of the enclosing
  \<open>sendTransportCall\<close>, the one-element list holding the call record. When the
  policy of the call's verb is missing, reading its \<open>retryLimit\<close> throws inside the
  callback and no continuation is invoked.
\<close>

definition on_rejected :: "transportCall \<Rightarrow> jsval \<Rightarrow> world \<Rightarrow> world" where
  "on_rejected transportCall response w =
     (let reject = w\<lparr>settled := settled w @
                       [Rejected (promise transportCall) [CallRecord transportCall]]\<rparr>
      in if \<not> truthy (js_and response (get_prop response ''status'')) then
           (case methods w (method transportCall) of
              None \<Rightarrow> w
            | Some pol \<Rightarrow>
                if retryCount transportCall < retryLimit pol
                then addFailedCall transportCall w
                else reject)
         else reject)"

function retryFailedCalls_loop :: "world \<Rightarrow> world" where
  "retryFailedCalls_loop w =
     (case failedCalls w of
        [] \<Rightarrow> w
      | c # rest \<Rightarrow> retryFailedCalls_loop (sendTransportCall c (w\<lparr>failedCalls := rest\<rparr>)))"
  by pat_completeness auto
termination
  by (relation "measure (\<lambda>w. length (failedCalls w))")
     (auto simp: sendTransportCall_def invoke_def)

definition retryFailedCalls :: "world \<Rightarrow> world" where
  "retryFailedCalls w = retryFailedCalls_loop (w\<lparr>retryTimer := None\<rparr>)"

text \<open>
  The deferred result a verb method returns: one of its own, or the wrapped
  transport's result itself.
\<close>

datatype deferred = Own nat | Underlying nat

definition transportMethod :: "verb \<Rightarrow> jsval list \<Rightarrow> world \<Rightarrow> deferred \<times> world" where
  "transportMethod m arguments w =
     (if (case methods w m of None \<Rightarrow> False | Some pol \<Rightarrow> retryLimit pol > 0) then
        (let transportCall = \<lparr> method = m, args = arguments,
                                promise = next_promise w, retryCount = 0 \<rparr>
         in (Own (next_promise w),
             sendTransportCall transportCall (w\<lparr>next_promise := Suc (next_promise w)\<rparr>)))
      else
        (let (k, tr) = invoke m arguments (transport w)
         in (Underlying k, w\<lparr>transport := tr\<rparr>)))"

text \<open>
  \<open>dispose\<close>: the handle \<open>setTimeout\<close> returned has no \<open>clear\<close> method, so the call
  \<open>this.retryTimer.clear()\<close> throws a \<open>TypeError\<close> whenever a timer is set, after the
  queue has been emptied and before the wrapped transport is disposed.
\<close>

definition dispose :: "world \<Rightarrow> error option \<times> world" where
  "dispose w =
     (let w1 = w\<lparr>failedCalls := []\<rparr>
      in case retryTimer w1 of
           Some h \<Rightarrow> (Some (TypeError ''this.retryTimer.clear is not a function''), w1)
         | None \<Rightarrow> (None, w1\<lparr>transport := transport_dispose (transport w1)\<rparr>))"

section \<open>Events\<close>

text \<open>
  One step of the event loop: a caller invokes a verb, the deferred result of an
  invocation of the wrapped transport settles, a timeout fires, or the owner disposes
  the retry transport (an exception it throws leaves the state reached so far).
\<close>

datatype event =
    Call verb "jsval list"
  | Fulfil nat jsval
  | Reject nat jsval
  | Timeout nat
  | Dispose

fun step :: "event \<Rightarrow> world \<Rightarrow> world" where
  "step (Call m as) w = snd (transportMethod m as w)"
| "step (Fulfil k v) w =
     (case thens w k of
        None \<Rightarrow> w
      | Some c \<Rightarrow> on_fulfilled c v (w\<lparr>thens := (thens w)(k := None)\<rparr>))"
| "step (Reject k r) w =
     (case thens w k of
        None \<Rightarrow> w
      | Some c \<Rightarrow> on_rejected c r (w\<lparr>thens := (thens w)(k := None)\<rparr>))"
| "step (Timeout h) w =
     (case timers w h of
        None \<Rightarrow> w
      | Some d \<Rightarrow> retryFailedCalls (w\<lparr>timers := (timers w)(h := None)\<rparr>))"
| "step Dispose w = snd (dispose w)"

definition exec :: "event list \<Rightarrow> world \<Rightarrow> world" where
  "exec es w = fold step es w"

section \<open>Notions used in the statements\<close>

text \<open>What the optional configuration gives for each setting, if anything.\<close>

definition given_retryTimeout :: "options option \<Rightarrow> int option" where
  "given_retryTimeout options_arg =
     (case options_arg of None \<Rightarrow> None | Some opts \<Rightarrow> opt_retryTimeout opts)"

definition given_methods :: "options option \<Rightarrow> (verb \<rightharpoonup> policy) option" where
  "given_methods options_arg =
     (case options_arg of None \<Rightarrow> None | Some opts \<Rightarrow> opt_methods opts)"

text \<open>A managed verb is one configured with a positive retry limit.\<close>

definition managed :: "world \<Rightarrow> verb \<Rightarrow> bool" where
  "managed w m = (case methods w m of None \<Rightarrow> False | Some pol \<Rightarrow> retryLimit pol > 0)"

text \<open>
  A transport-level failure: the rejection value has no \<open>status\<close> property at all
  (it is not an object, or an object without that property).
\<close>

fun no_status :: "jsval \<Rightarrow> bool" where
  "no_status (JObject fs) = (map_of fs ''status'' = None)"
| "no_status v = True"

text \<open>The call records that are alive: awaiting the wrapped transport, or queued.\<close>

definition pending :: "world \<Rightarrow> transportCall set" where
  "pending w = ran (thens w) \<union> set (failedCalls w)"

definition within_limit :: "world \<Rightarrow> bool" where
  "within_limit w =
     (\<forall>c \<in> pending w. \<exists>pol. methods w (method c) = Some pol \<and>
                          0 \<le> retryCount c \<and> retryCount c \<le> retryLimit pol)"

definition one_timer :: "world \<Rightarrow> bool" where
  "one_timer w =
     (dom (timers w) = set_option (retryTimer w) \<and>
      (\<forall>h \<in> dom (timers w). h < next_timer w))"

definition promises_fresh :: "world \<Rightarrow> bool" where
  "promises_fresh w =
     ((\<forall>c \<in> pending w. promise c < next_promise w) \<and>
      (\<forall>s \<in> set (settled w). settled_promise s < next_promise w))"

definition promises_unique :: "world \<Rightarrow> bool" where
  "promises_unique w =
     ((\<forall>k k' c c'. thens w k = Some c \<longrightarrow> thens w k' = Some c' \<longrightarrow>
                    promise c = promise c' \<longrightarrow> k = k') \<and>
      distinct (map promise (failedCalls w)) \<and>
      (\<forall>k c. thens w k = Some c \<longrightarrow> promise c \<notin> promise ` set (failedCalls w)))"

definition settled_apart :: "world \<Rightarrow> bool" where
  "settled_apart w = (\<forall>c \<in> pending w. promise c \<notin> settled_promise ` set (settled w))"

definition promises_ok :: "world \<Rightarrow> bool" where
  "promises_ok w = (promises_fresh w \<and> promises_unique w \<and> settled_apart w)"

text \<open>A deferred result that was issued and whose call record is no longer alive.\<close>

definition finished :: "nat \<Rightarrow> world \<Rightarrow> bool" where
  "finished p w = (p < next_promise w \<and> p \<notin> promise ` pending w)"

text \<open>
  Invocation \<open>k\<close> of the wrapped transport is an attempt of the call with deferred
  result \<open>p\<close> while it awaits its outcome with that call's record attached.
\<close>

definition attempt_of :: "nat \<Rightarrow> world \<Rightarrow> nat \<Rightarrow> bool" where
  "attempt_of p w k = (case thens w k of None \<Rightarrow> False | Some c \<Rightarrow> promise c = p)"

definition queued :: "nat \<Rightarrow> world \<Rightarrow> transportCall list" where
  "queued p w = filter (\<lambda>c. promise c = p) (failedCalls w)"

definition settled_for :: "nat \<Rightarrow> world \<Rightarrow> settlement list" where
  "settled_for p w = filter (\<lambda>s. settled_promise s = p) (settled w)"

text \<open>
  Observations of a run, for one call. An event is a failure of the call when it
  rejects one of its attempts. The invocations a step makes for the call are the new
  entries of the wrapped transport's log that have the call's record attached.
\<close>

fun failure_of :: "nat \<Rightarrow> event \<Rightarrow> world \<Rightarrow> bool" where
  "failure_of p (Reject k r) w = attempt_of p w k"
| "failure_of p e w = False"

definition dispatched :: "nat \<Rightarrow> world \<Rightarrow> world \<Rightarrow> nat list" where
  "dispatched p w w' =
     filter (attempt_of p w')
       [length (calls (transport w))..<length (calls (transport w'))]"

fun failures :: "nat \<Rightarrow> event list \<Rightarrow> world \<Rightarrow> nat" where
  "failures p [] w = 0"
| "failures p (e # es) w = (if failure_of p e w then 1 else 0) + failures p es (step e w)"

fun dispatches :: "nat \<Rightarrow> event list \<Rightarrow> world \<Rightarrow> nat" where
  "dispatches p [] w = 0"
| "dispatches p (e # es) w =
     length (dispatched p w (step e w)) + dispatches p es (step e w)"

text \<open>
  A run in which the call only ever fails at transport level: none of its attempts
  is fulfilled, and every rejection of one of its attempts carries no status.
  Everything else may happen in between, in any order.
\<close>

fun allowed :: "nat \<Rightarrow> event \<Rightarrow> world \<Rightarrow> bool" where
  "allowed p (Fulfil k v) w = (\<not> attempt_of p w k)"
| "allowed p (Reject k r) w = (attempt_of p w k \<longrightarrow> no_status r)"
| "allowed p e w = True"

fun fails_only :: "nat \<Rightarrow> event list \<Rightarrow> world \<Rightarrow> bool" where
  "fails_only p [] w = True"
| "fails_only p (e # es) w = (allowed p e w \<and> fails_only p es (step e w))"

text \<open>
  Every reaction is attached to an invocation that was made, with the verb and the
  arguments of its call record.
\<close>

definition keys_ok :: "world \<Rightarrow> bool" where
  "keys_ok w =
     (\<forall>k c. thens w k = Some c \<longrightarrow>
        k < length (calls (transport w)) \<and> calls (transport w) ! k = (method c, args c))"

definition sound :: "world \<Rightarrow> bool" where
  "sound w = (promises_ok w \<and> one_timer w \<and> keys_ok w)"

text \<open>
  Where a call of verb \<open>m\<close> with arguments \<open>as\<close> and deferred result \<open>p\<close> stands after \<open>f\<close>
  failures and \<open>d\<close> invocations, under a retry limit \<open>N\<close>: awaiting the outcome of an
  attempt, waiting in the queue for the timeout, dropped from the queue by a disposal,
  or rejected.
\<close>

definition tracked ::
  "verb \<Rightarrow> jsval list \<Rightarrow> nat \<Rightarrow> nat \<Rightarrow> nat \<Rightarrow> nat \<Rightarrow> world \<Rightarrow> bool" where
  "tracked m as p N f d w =
     ((f \<le> N \<and> d = f + 1 \<and> settled_for p w = [] \<and>
       (\<exists>k. thens w k = Some \<lparr>method = m, args = as, promise = p, retryCount = int f\<rparr>))
    \<or> (f \<le> N \<and> d = f \<and> settled_for p w = [] \<and> retryTimer w \<noteq> None \<and>
       \<lparr>method = m, args = as, promise = p, retryCount = int f\<rparr> \<in> set (failedCalls w))
    \<or> (f \<le> N \<and> d = f \<and> settled_for p w = [] \<and> finished p w)
    \<or> (f = N + 1 \<and> d = N + 1 \<and> finished p w \<and>
       settled_for p w =
         [Rejected p [CallRecord \<lparr>method = m, args = as, promise = p, retryCount = int N\<rparr>]]))"

text \<open>
  The configuration of the specification's scenarios: a delay of 100 ms and two
  retries for \<open>delete\<close>, on a wrapped transport that has not been used.
\<close>

definition scenario_options :: options where
  "scenario_options =
     \<lparr>opt_retryTimeout = Some 100, opt_methods = Some [Delete \<mapsto> \<lparr>retryLimit = 2\<rparr>]\<rparr>"

definition scenario_world :: world where
  "scenario_world =
     boot \<lparr>retryTimeout = 100, methods = [Delete \<mapsto> \<lparr>retryLimit = 2\<rparr>],
           transport = \<lparr>calls = [], disposed = 0\<rparr>, failedCalls = [], retryTimer = None\<rparr>"

section \<open>The drain loop and single rejections\<close>

declare retryFailedCalls_loop.simps [simp del]

lemma loop_Nil: "failedCalls w = [] \<Longrightarrow> retryFailedCalls_loop w = w"
  by (subst retryFailedCalls_loop.simps) simp

lemma loop_Cons:
  "failedCalls w = c # rest \<Longrightarrow>
   retryFailedCalls_loop w = retryFailedCalls_loop (sendTransportCall c (w\<lparr>failedCalls := rest\<rparr>))"
  by (subst retryFailedCalls_loop.simps) simp

lemma no_status_falsy: "no_status r \<Longrightarrow> \<not> truthy (js_and r (get_prop r ''status''))"
  by (cases r) (auto simp: js_and_def)

section \<open>Construction\<close>

text \<open>
  Claim C8. The constructor raises an error exactly when no transport is supplied.
  Otherwise it yields an instance that wraps the given transport, has an empty retry
  queue and no timer, takes the retry timeout from the configuration when that is
  positive and 0 when it is unset or not positive, and takes the method policies from
  the configuration or, when there are none, the empty mapping.
\<close>

theorem C8_construction:
  "((\<exists>e. TransportRetry t opts = Inl e) \<longleftrightarrow> t = None) \<and>
   (\<forall>tr. t = Some tr \<longrightarrow>
      (\<exists>obj. TransportRetry t opts = Inr obj \<and>
         transport obj = tr \<and> failedCalls obj = [] \<and> retryTimer obj = None \<and>
         (\<forall>x. given_retryTimeout opts = Some x \<and> 0 < x \<longrightarrow> retryTimeout obj = x) \<and>
         (given_retryTimeout opts = None \<longrightarrow> retryTimeout obj = 0) \<and>
         (\<forall>x. given_retryTimeout opts = Some x \<and> x \<le> 0 \<longrightarrow> retryTimeout obj = 0) \<and>
         (\<forall>ms. given_methods opts = Some ms \<longrightarrow> methods obj = ms) \<and>
         (given_methods opts = None \<longrightarrow> methods obj = Map.empty)))"
  by (auto simp: TransportRetry_def given_retryTimeout_def given_methods_def
           split: option.splits)

theorem C8_construction_witness:
  "(\<exists>obj. TransportRetry (Some \<lparr>calls = [], disposed = 0\<rparr>) (Some scenario_options) = Inr obj \<and>
      retryTimeout obj = 100 \<and> failedCalls obj = [] \<and> retryTimer obj = None \<and>
      methods obj Delete = Some \<lparr>retryLimit = 2\<rparr>) \<and>
   (\<exists>e. TransportRetry None (Some scenario_options) = Inl e)"
  using C8_construction [of "Some \<lparr>calls = [], disposed = 0\<rparr>" "Some scenario_options"]
        C8_construction [of None "Some scenario_options"]
  by (auto simp: given_retryTimeout_def given_methods_def scenario_options_def)

section \<open>Unmanaged verbs\<close>

text \<open>
  Claim C3. For a verb that has no policy, or a policy with \<open>retryLimit \<le> 0\<close>, and
  any argument list, the verb method invokes the wrapped transport's operation once
  with those arguments and returns the deferred result of that invocation itself;
  nothing else changes: the retry queue, the timer reference, the scheduled timeouts
  and the registered reactions stay as they were.
\<close>

theorem C3_unmanaged_passthrough:
  assumes "methods w m = None \<or> (\<exists>pol. methods w m = Some pol \<and> retryLimit pol \<le> 0)"
  shows "transportMethod m as w =
           (Underlying (length (calls (transport w))),
            w\<lparr>transport := (transport w)\<lparr>calls := calls (transport w) @ [(m, as)]\<rparr>\<rparr>)
         \<and> failedCalls (snd (transportMethod m as w)) = failedCalls w
         \<and> retryTimer (snd (transportMethod m as w)) = retryTimer w
         \<and> timers (snd (transportMethod m as w)) = timers w
         \<and> thens (snd (transportMethod m as w)) = thens w"
  using assms by (auto simp: transportMethod_def invoke_def)

theorem C3_unmanaged_passthrough_witness:
  "fst (transportMethod Get [JStr ''/ref''] scenario_world) = Underlying 0 \<and>
   calls (transport (snd (transportMethod Get [JStr ''/ref''] scenario_world))) = [(Get, [JStr ''/ref''])] \<and>
   failedCalls (snd (transportMethod Get [JStr ''/ref''] scenario_world)) = [] \<and>
   retryTimer (snd (transportMethod Get [JStr ''/ref''] scenario_world)) = None"
  using C3_unmanaged_passthrough [of scenario_world Get "[JStr ''/ref'']"]
  by (simp add: scenario_world_def boot_def)

section \<open>Failure classification\<close>

text \<open>
  Claim C4. When the wrapped transport rejects a managed call with a descriptor that
  carries an HTTP status (an object whose \<open>status\<close> property holds a truthy value,
  as every HTTP status code does), the rejecter is invoked in that very step,
  whatever the call's \<open>retryCount\<close> is: the call is not queued, no timer is started
  and the wrapped transport is not invoked again. For a first attempt this means the
  wrapped transport was invoked exactly once.
\<close>

theorem C4_status_failure_rejected_at_once:
  assumes "r = JObject fs" and "map_of fs ''status'' = Some s" and "truthy s"
  shows "(thens w k = Some c \<longrightarrow>
            step (Reject k r) w =
              w\<lparr>thens := (thens w)(k := None),
                settled := settled w @ [Rejected (promise c) [CallRecord c]]\<rparr>)
         \<and> (managed w m \<longrightarrow>
              (let w' = exec [Call m as, Reject (length (calls (transport w))) r] w
               in calls (transport w') = calls (transport w) @ [(m, as)] \<and>
                  settled w' = settled w @
                    [Rejected (next_promise w)
                       [CallRecord \<lparr>method = m, args = as, promise = next_promise w, retryCount = 0\<rparr>]] \<and>
                  failedCalls w' = failedCalls w \<and> retryTimer w' = retryTimer w \<and>
                  timers w' = timers w \<and> thens w' (length (calls (transport w))) = None))"
  using assms
  by (auto simp: on_rejected_def js_and_def managed_def exec_def transportMethod_def
        sendTransportCall_def invoke_def Let_def split: option.splits)

theorem C4_status_failure_rejected_at_once_witness:
  "managed scenario_world Delete \<and>
   calls (transport (exec [Call Delete [], Reject 0 (JObject [(''status'', JNum 500)])]
                       scenario_world)) = [(Delete, [])] \<and>
   settled (exec [Call Delete [], Reject 0 (JObject [(''status'', JNum 500)])]
              scenario_world) =
      [Rejected 0 [CallRecord \<lparr>method = Delete, args = [], promise = 0, retryCount = 0\<rparr>]] \<and>
   failedCalls (exec [Call Delete [], Reject 0 (JObject [(''status'', JNum 500)])]
                  scenario_world) = [] \<and>
   thens (exec [Call Delete [], Reject 0 JUndefined, Timeout 1] scenario_world) 1 =
      Some \<lparr>method = Delete, args = [], promise = 0, retryCount = 1\<rparr> \<and>
   settled (step (Reject 1 (JObject [(''status'', JNum 503)]))
              (exec [Call Delete [], Reject 0 JUndefined, Timeout 1] scenario_world)) =
      [Rejected 0 [CallRecord \<lparr>method = Delete, args = [], promise = 0, retryCount = 1\<rparr>]] \<and>
   failedCalls (step (Reject 1 (JObject [(''status'', JNum 503)]))
                  (exec [Call Delete [], Reject 0 JUndefined, Timeout 1] scenario_world)) = []"
proof -
  let ?w = "exec [Call Delete [], Reject 0 JUndefined, Timeout 1] scenario_world"
  let ?c = "\<lparr>method = Delete, args = [], promise = 0, retryCount = 1\<rparr>"
  have run: "thens ?w 1 = Some ?c" and s: "settled ?w = []" and q: "failedCalls ?w = []"
    by (simp_all add: scenario_world_def boot_def exec_def transportMethod_def
          sendTransportCall_def invoke_def on_rejected_def js_and_def addFailedCall_def
          retryFailedCalls_def Let_def loop_Cons loop_Nil)
  have m: "managed scenario_world Delete"
    by (simp add: scenario_world_def boot_def managed_def)
  note first = C4_status_failure_rejected_at_once
                 [of "JObject [(''status'', JNum 500)]" "[(''status'', JNum 500)]" "JNum 500"
                     scenario_world 0 ?c Delete "[]"]
  note retry = C4_status_failure_rejected_at_once
                 [of "JObject [(''status'', JNum 503)]" "[(''status'', JNum 503)]" "JNum 503"
                     ?w 1 ?c Delete "[]"]
  have a: "calls (transport (exec [Call Delete [], Reject 0 (JObject [(''status'', JNum 500)])]
                       scenario_world)) = [(Delete, [])] \<and>
     settled (exec [Call Delete [], Reject 0 (JObject [(''status'', JNum 500)])]
              scenario_world) =
      [Rejected 0 [CallRecord \<lparr>method = Delete, args = [], promise = 0, retryCount = 0\<rparr>]] \<and>
     failedCalls (exec [Call Delete [], Reject 0 (JObject [(''status'', JNum 500)])]
                  scenario_world) = []"
    using first m by (simp add: scenario_world_def boot_def Let_def)
  have "step (Reject 1 (JObject [(''status'', JNum 503)])) ?w =
          ?w\<lparr>thens := (thens ?w)(1 := None),
            settled := settled ?w @ [Rejected (promise ?c) [CallRecord ?c]]\<rparr>"
    using retry run by (simp del: step.simps)
  then have b: "settled (step (Reject 1 (JObject [(''status'', JNum 503)])) ?w) =
                  [Rejected 0 [CallRecord ?c]] \<and>
                failedCalls (step (Reject 1 (JObject [(''status'', JNum 503)])) ?w) = []"
    using s q by (simp del: step.simps)
  show ?thesis using m a b run by (simp del: step.simps)
qed

text \<open>
  Claim C10. The classification tests the truthiness of \<open>response && response.status\<close>:
  a rejection value that is \<open>null\<close> or \<open>undefined\<close>, or an object whose \<open>status\<close>
  property is present but falsy (0, the empty string, ...), is retried while budget
  remains: the call is appended to the queue with its count incremented, a timer is
  set, and no continuation is invoked.
\<close>

theorem C10_falsy_status_is_retryable:
  assumes "thens w k = Some c" and "methods w (method c) = Some pol"
    and "retryCount c < retryLimit pol"
    and "r = JNull \<or> r = JUndefined \<or>
         (\<exists>fs s. r = JObject fs \<and> map_of fs ''status'' = Some s \<and> \<not> truthy s)"
  shows "failedCalls (step (Reject k r) w) = failedCalls w @ [c\<lparr>retryCount := retryCount c + 1\<rparr>]
       \<and> settled (step (Reject k r) w) = settled w
       \<and> calls (transport (step (Reject k r) w)) = calls (transport w)
       \<and> retryTimer (step (Reject k r) w) \<noteq> None"
  using assms
  by (auto simp: on_rejected_def js_and_def addFailedCall_def Let_def split: option.splits)

theorem C10_falsy_status_is_retryable_witness:
  "failedCalls (step (Reject 0 (JObject [(''status'', JNum 0)])) (exec [Call Delete []] scenario_world)) =
     [\<lparr>method = Delete, args = [], promise = 0, retryCount = 1\<rparr>] \<and>
   settled (step (Reject 0 (JObject [(''status'', JNum 0)])) (exec [Call Delete []] scenario_world)) = [] \<and>
   failedCalls (step (Reject 0 (JObject [(''status'', JStr [])])) (exec [Call Delete []] scenario_world)) =
     [\<lparr>method = Delete, args = [], promise = 0, retryCount = 1\<rparr>] \<and>
   failedCalls (step (Reject 0 JNull) (exec [Call Delete []] scenario_world)) =
     [\<lparr>method = Delete, args = [], promise = 0, retryCount = 1\<rparr>]"
  using C10_falsy_status_is_retryable [of "exec [Call Delete []] scenario_world" 0
          "\<lparr>method = Delete, args = [], promise = 0, retryCount = 0\<rparr>" "\<lparr>retryLimit = 2\<rparr>"
          "JObject [(''status'', JNum 0)]"]
        C10_falsy_status_is_retryable [of "exec [Call Delete []] scenario_world" 0
          "\<lparr>method = Delete, args = [], promise = 0, retryCount = 0\<rparr>" "\<lparr>retryLimit = 2\<rparr>"
          "JObject [(''status'', JStr [])]"]
        C10_falsy_status_is_retryable [of "exec [Call Delete []] scenario_world" 0
          "\<lparr>method = Delete, args = [], promise = 0, retryCount = 0\<rparr>" "\<lparr>retryLimit = 2\<rparr>"
          "JNull"]
  by (simp add: scenario_world_def boot_def exec_def transportMethod_def sendTransportCall_def
        invoke_def)

text \<open>
  Claim C2, evaluated on the scenario configuration. A \<open>delete\<close> rejected with
  \<open>{status: 500}\<close> is finalized at once, and a \<open>delete\<close> that fails three times
  without status is finalized on exhaustion. In both runs the rejecter is called with
  the call record, not with the descriptor the wrapped transport rejected with.
\<close>

theorem C2_rejecter_receives_call_record:
  "settled (exec [Call Delete [], Reject 0 (JObject [(''status'', JNum 500)])] scenario_world) =
     [Rejected 0 [CallRecord \<lparr>method = Delete, args = [], promise = 0, retryCount = 0\<rparr>]] \<and>
   settled (exec [Call Delete [], Reject 0 (JObject [(''status'', JNum 500)])] scenario_world) \<noteq>
     [Rejected 0 [Val (JObject [(''status'', JNum 500)])]] \<and>
   settled (exec [Call Delete [], Reject 0 JUndefined, Timeout 1, Reject 1 JUndefined, Timeout 2,
                  Reject 2 (JObject [(''message'', JStr ''offline'')])] scenario_world) =
     [Rejected 0 [CallRecord \<lparr>method = Delete, args = [], promise = 0, retryCount = 2\<rparr>]]"
  by (simp add: scenario_world_def boot_def exec_def transportMethod_def sendTransportCall_def
        invoke_def on_rejected_def js_and_def addFailedCall_def retryFailedCalls_def Let_def
        loop_Cons loop_Nil)

section \<open>Disposal\<close>

text \<open>
  Claim C5, evaluated on the scenario configuration. Two \<open>delete\<close> calls are made and
  the first fails without status, so a timer is set. Disposal then empties the queue
  and throws a \<open>TypeError\<close>: the timer stays scheduled, the timer reference stays set
  and the wrapped transport is not disposed. A second disposal throws again. When the
  second call fails after the disposal it is queued, and the timeout that was never
  cancelled redispatches it.
\<close>

theorem C5_dispose_throws_with_active_timer:
  "(let w = exec [Call Delete [JStr ''a''], Call Delete [JStr ''b''], Reject 0 JUndefined] scenario_world;
        w1 = snd (dispose w);
        w2 = exec [Reject 1 JUndefined, Timeout 1] w1
    in retryTimer w = Some 1 \<and>
       fst (dispose w) = Some (TypeError ''this.retryTimer.clear is not a function'') \<and>
       failedCalls w1 = [] \<and> retryTimer w1 = Some 1 \<and> timers w1 1 = Some 100 \<and>
       disposed (transport w1) = 0 \<and>
       fst (dispose w1) = Some (TypeError ''this.retryTimer.clear is not a function'') \<and>
       calls (transport w1) = [(Delete, [JStr ''a'']), (Delete, [JStr ''b''])] \<and>
       calls (transport w2) = [(Delete, [JStr ''a'']), (Delete, [JStr ''b'']), (Delete, [JStr ''b''])])"
  by (simp add: scenario_world_def boot_def exec_def transportMethod_def sendTransportCall_def
        invoke_def on_rejected_def js_and_def addFailedCall_def retryFailedCalls_def dispose_def
        Let_def loop_Cons loop_Nil)

section \<open>Invariants of the event loop\<close>

lemma loop_invariant:
  assumes "P w"
    and iter: "\<And>w c rest. P w \<Longrightarrow> failedCalls w = c # rest \<Longrightarrow>
                 P (sendTransportCall c (w\<lparr>failedCalls := rest\<rparr>))"
  shows "P (retryFailedCalls_loop w)"
  using assms(1)
proof (induction w rule: retryFailedCalls_loop.induct)
  case (1 w)
  show ?case
  proof (cases "failedCalls w")
    case Nil
    then show ?thesis using "1.prems" by (simp add: loop_Nil)
  next
    case (Cons c rest)
    then show ?thesis
      using "1.IH" [OF Cons] iter [OF "1.prems" Cons] by (simp add: loop_Cons)
  qed
qed

lemma exec_invariant:
  assumes "P w" and "\<And>e w. P w \<Longrightarrow> P (step e w)"
  shows "P (exec es w)"
  using assms(1) unfolding exec_def
  by (induction es arbitrary: w) (simp_all add: assms(2))

lemma loop_closed:
  "retryFailedCalls_loop w =
     w\<lparr>failedCalls := [],
       transport := (transport w)\<lparr>calls := calls (transport w) @
                       map (\<lambda>c. (method c, args c)) (failedCalls w)\<rparr>,
       thens := (\<lambda>j. if length (calls (transport w)) \<le> j \<and>
                         j < length (calls (transport w)) + length (failedCalls w)
                      then Some (failedCalls w ! (j - length (calls (transport w))))
                      else thens w j)\<rparr>"
proof (induction w rule: retryFailedCalls_loop.induct)
  case (1 w)
  let ?k = "length (calls (transport w))"
  show ?case
  proof (cases "failedCalls w")
    case Nil
    have "(\<lambda>j. if ?k \<le> j \<and> j < ?k + length (failedCalls w)
               then Some (failedCalls w ! (j - ?k)) else thens w j) = thens w"
      using Nil by (auto simp: fun_eq_iff)
    then show ?thesis using Nil by (simp add: loop_Nil)
  next
    case (Cons c rest)
    let ?w = "sendTransportCall c (w\<lparr>failedCalls := rest\<rparr>)"
    have f: "(\<lambda>j. if length (calls (transport ?w)) \<le> j \<and>
                     j < length (calls (transport ?w)) + length (failedCalls ?w)
                  then Some (failedCalls ?w ! (j - length (calls (transport ?w))))
                  else thens ?w j) =
             (\<lambda>j. if ?k \<le> j \<and> j < ?k + length (failedCalls w)
                  then Some (failedCalls w ! (j - ?k)) else thens w j)"
      using Cons
      by (auto simp: fun_eq_iff sendTransportCall_def invoke_def nth_Cons' Suc_diff_le)
    show ?thesis
      apply (subst loop_Cons [OF Cons])
      apply (subst "1.IH" [OF Cons])
      apply (subst f)
      apply (simp add: Cons sendTransportCall_def invoke_def)
      done
  qed
qed

subsection \<open>How each operation changes the call records that are alive\<close>

lemma ran_upd_subset: "ran (m(k \<mapsto> v)) \<subseteq> insert v (ran m)"
  by (auto simp: ran_def)

lemma ran_del_subset: "ran (m(k := None)) \<subseteq> ran m"
  by (auto simp: ran_def)

lemma pending_send:
  "pending (sendTransportCall c w) \<subseteq> insert c (pending w)"
  using ran_upd_subset [of "thens w" "length (calls (transport w))" c]
  by (auto simp: pending_def sendTransportCall_def invoke_def)

lemma pending_loop: "pending (retryFailedCalls_loop w) \<subseteq> pending w"
proof (rule loop_invariant [where P = "\<lambda>w'. pending w' \<subseteq> pending w"])
  show "pending w \<subseteq> pending w" by simp
next
  fix w' c rest
  assume sub: "pending w' \<subseteq> pending w" and q: "failedCalls w' = c # rest"
  have "pending (sendTransportCall c (w'\<lparr>failedCalls := rest\<rparr>)) \<subseteq>
          insert c (pending (w'\<lparr>failedCalls := rest\<rparr>))"
    by (rule pending_send)
  also have "\<dots> \<subseteq> pending w'" using q by (auto simp: pending_def)
  finally show "pending (sendTransportCall c (w'\<lparr>failedCalls := rest\<rparr>)) \<subseteq> pending w"
    using sub by blast
qed

lemma pending_add:
  "pending (addFailedCall c w) = insert (c\<lparr>retryCount := retryCount c + 1\<rparr>) (pending w)"
  by (auto simp: pending_def addFailedCall_def Let_def split: option.splits)

lemma pending_forget:
  "pending (w\<lparr>thens := (thens w)(k := None)\<rparr>) \<subseteq> pending w"
  using ran_del_subset [of "thens w" k] by (auto simp: pending_def)

lemma pending_member: "thens w k = Some c \<Longrightarrow> c \<in> pending w"
  by (auto simp: pending_def ran_def)

lemma methods_add: "methods (addFailedCall c w) = methods w"
  by (simp add: addFailedCall_def Let_def split: option.splits)

lemma methods_loop [simp]: "methods (retryFailedCalls_loop w) = methods w"
  by (subst loop_closed) simp

lemma methods_step [simp]: "methods (step e w) = methods w"
  by (cases e)
     (auto simp: transportMethod_def sendTransportCall_def invoke_def on_fulfilled_def
        on_rejected_def addFailedCall_def retryFailedCalls_def dispose_def Let_def
        split: option.splits prod.splits)

lemma methods_exec [simp]: "methods (exec es w) = methods w"
  unfolding exec_def by (induction es arbitrary: w) simp_all

subsection \<open>The retry count stays within the limit\<close>

lemma within_limit_subset:
  assumes "within_limit w" and "methods w' = methods w" and "pending w' \<subseteq> pending w"
  shows "within_limit w'"
  using assms unfolding within_limit_def by (metis subsetD)

lemma within_limit_call:
  assumes "within_limit w"
  shows "within_limit (snd (transportMethod m as w))"
proof (cases "managed w m")
  case False
  then show ?thesis
    using assms
    by (auto simp: managed_def transportMethod_def invoke_def within_limit_def pending_def
          split: option.splits)
next
  case True
  let ?c = "\<lparr>method = m, args = as, promise = next_promise w, retryCount = 0\<rparr>"
  let ?w = "sendTransportCall ?c (w\<lparr>next_promise := Suc (next_promise w)\<rparr>)"
  have eq: "snd (transportMethod m as w) = ?w"
    using True by (auto simp: managed_def transportMethod_def split: option.splits)
  have sub: "pending ?w \<subseteq> insert ?c (pending w)"
    using pending_send [of ?c "w\<lparr>next_promise := Suc (next_promise w)\<rparr>"]
    by (simp add: pending_def)
  have m: "methods ?w = methods w" by (simp add: sendTransportCall_def invoke_def)
  show ?thesis
    unfolding eq within_limit_def
  proof
    fix c assume "c \<in> pending ?w"
    then consider "c = ?c" | "c \<in> pending w" using sub by blast
    then show "\<exists>pol. methods ?w (method c) = Some pol \<and> 0 \<le> retryCount c \<and>
                    retryCount c \<le> retryLimit pol"
    proof cases
      case 1
      then show ?thesis using True by (auto simp: m managed_def split: option.splits)
    next
      case 2
      then show ?thesis using assms by (simp add: m within_limit_def)
    qed
  qed
qed

lemma within_limit_reject:
  assumes "within_limit w" and "thens w k = Some c"
  shows "within_limit (on_rejected c r (w\<lparr>thens := (thens w)(k := None)\<rparr>))"
proof -
  let ?w = "w\<lparr>thens := (thens w)(k := None)\<rparr>"
  have w1: "within_limit ?w"
    using assms(1) pending_forget [of w k] by (auto simp: within_limit_def)
  have c: "\<exists>pol. methods w (method c) = Some pol \<and> 0 \<le> retryCount c \<and>
                 retryCount c \<le> retryLimit pol"
    using assms pending_member [OF assms(2)] by (simp add: within_limit_def)
  have settle: "within_limit (?w\<lparr>settled := x\<rparr>)" for x
    using w1 by (simp add: within_limit_def pending_def)
  have add: "within_limit (addFailedCall c ?w)"
    if "methods w (method c) = Some pol" and "retryCount c < retryLimit pol" for pol
    using w1 c that unfolding within_limit_def pending_add by (auto simp: methods_add)
  show ?thesis
    using w1 settle add by (auto simp: on_rejected_def Let_def split: option.splits)
qed

lemma within_limit_step:
  assumes "within_limit w"
  shows "within_limit (step e w)"
proof (cases e)
  case (Call m as)
  then show ?thesis using within_limit_call [OF assms] by simp
next
  case (Fulfil k v)
  show ?thesis
  proof (cases "thens w k")
    case None
    then show ?thesis using assms Fulfil by simp
  next
    case (Some c)
    have "within_limit (w\<lparr>thens := (thens w)(k := None)\<rparr>)"
      using assms pending_forget [of w k] by (auto simp: within_limit_def)
    then show ?thesis
      using Fulfil Some by (simp add: on_fulfilled_def within_limit_def pending_def)
  qed
next
  case (Reject k r)
  then show ?thesis
    using assms within_limit_reject [OF assms] by (auto split: option.splits)
next
  case (Timeout h)
  show ?thesis
  proof (cases "timers w h")
    case None
    then show ?thesis using assms Timeout by simp
  next
    case (Some d)
    let ?w = "w\<lparr>timers := (timers w)(h := None), retryTimer := None\<rparr>"
    have "pending (retryFailedCalls_loop ?w) \<subseteq> pending ?w" by (rule pending_loop)
    then have "pending (retryFailedCalls_loop ?w) \<subseteq> pending w" by (simp add: pending_def)
    then have "within_limit (retryFailedCalls_loop ?w)"
      using within_limit_subset [OF assms, of "retryFailedCalls_loop ?w"] by simp
    then show ?thesis using Timeout Some by (simp add: retryFailedCalls_def)
  qed
next
  case Dispose
  then show ?thesis
    using assms
    by (auto simp: dispose_def Let_def within_limit_def pending_def split: option.splits)
qed

lemma TransportRetry_fresh:
  assumes "TransportRetry t opts = Inr obj"
  shows "failedCalls obj = []" and "retryTimer obj = None"
  using assms by (auto simp: TransportRetry_def split: option.splits)

lemma within_limit_boot: "failedCalls obj = [] \<Longrightarrow> within_limit (boot obj)"
  by (simp add: within_limit_def pending_def boot_def)

lemma within_limit_reachable:
  assumes "TransportRetry t opts = Inr obj"
  shows "within_limit (exec es (boot obj))"
  by (rule exec_invariant [where P = within_limit,
        OF within_limit_boot [OF TransportRetry_fresh(1) [OF assms]] within_limit_step])


lemma finalize_at_limit:
  assumes "thens w k = Some c" and "methods w (method c) = Some pol"
    and "retryLimit pol \<le> retryCount c"
  shows "step (Reject k r) w =
           w\<lparr>thens := (thens w)(k := None),
             settled := settled w @ [Rejected (promise c) [CallRecord c]]\<rparr>"
  using assms by (simp add: on_rejected_def Let_def)

lemma requeue_only_below_limit:
  assumes "thens w k = Some c" and "failedCalls (step (Reject k r) w) \<noteq> failedCalls w"
  shows "(\<exists>pol. methods w (method c) = Some pol \<and> retryCount c < retryLimit pol) \<and>
         failedCalls (step (Reject k r) w) =
           failedCalls w @ [c\<lparr>retryCount := retryCount c + 1\<rparr>]"
  using assms
  by (auto simp: on_rejected_def addFailedCall_def Let_def split: option.splits if_splits)

lemma first_dispatch:
  assumes "managed w m"
  shows "thens (snd (transportMethod m as w)) (length (calls (transport w))) =
           Some \<lparr>method = m, args = as, promise = next_promise w, retryCount = 0\<rparr>"
  using assms
  by (auto simp: managed_def transportMethod_def sendTransportCall_def invoke_def
        split: option.splits)


text \<open>
  Claim C9. In every state the retry transport reaches from its construction, each
  call record that is alive (awaiting the wrapped transport or queued) belongs to a
  verb with a policy and has \<open>0 \<le> retryCount \<le> retryLimit\<close>. A record starts
  with \<open>retryCount = 0\<close>. A rejection changes the queue only when the count is
  strictly below the limit, and then appends the record with the count incremented
  by one. When the count has reached the limit, any rejection finalizes the call:
  the rejecter is invoked and the call is not queued.
\<close>

theorem C9_retryCount_within_limit:
  assumes "TransportRetry t opts = Inr obj" and "w = exec es (boot obj)"
  shows "(\<forall>c \<in> pending w. \<exists>pol. methods w (method c) = Some pol \<and>
              0 \<le> retryCount c \<and> retryCount c \<le> retryLimit pol)
       \<and> (\<forall>m as. managed w m \<longrightarrow>
              thens (snd (transportMethod m as w)) (length (calls (transport w))) =
                Some \<lparr>method = m, args = as, promise = next_promise w, retryCount = 0\<rparr>)
       \<and> (\<forall>k c r. thens w k = Some c \<and> failedCalls (step (Reject k r) w) \<noteq> failedCalls w \<longrightarrow>
              (\<exists>pol. methods w (method c) = Some pol \<and> retryCount c < retryLimit pol) \<and>
              failedCalls (step (Reject k r) w) =
                failedCalls w @ [c\<lparr>retryCount := retryCount c + 1\<rparr>])
       \<and> (\<forall>k c r pol. thens w k = Some c \<and> methods w (method c) = Some pol \<and>
              retryCount c = retryLimit pol \<longrightarrow>
              step (Reject k r) w =
                w\<lparr>thens := (thens w)(k := None),
                  settled := settled w @ [Rejected (promise c) [CallRecord c]]\<rparr>)"
proof (intro conjI allI impI)
  show "\<forall>c \<in> pending w. \<exists>pol. methods w (method c) = Some pol \<and>
              0 \<le> retryCount c \<and> retryCount c \<le> retryLimit pol"
    using within_limit_reachable [OF assms(1), of es] assms(2)
    by (simp add: within_limit_def)
next
  fix m as assume "managed w m"
  then show "thens (snd (transportMethod m as w)) (length (calls (transport w))) =
                Some \<lparr>method = m, args = as, promise = next_promise w, retryCount = 0\<rparr>"
    by (rule first_dispatch)
next
  fix k c r
  assume a: "thens w k = Some c \<and> failedCalls (step (Reject k r) w) \<noteq> failedCalls w"
  show "\<exists>pol. methods w (method c) = Some pol \<and> retryCount c < retryLimit pol"
    using requeue_only_below_limit [of w k c r] a by blast
  show "failedCalls (step (Reject k r) w) =
          failedCalls w @ [c\<lparr>retryCount := retryCount c + 1\<rparr>]"
    using requeue_only_below_limit [of w k c r] a by blast
next
  fix k c r pol
  assume "thens w k = Some c \<and> methods w (method c) = Some pol \<and> retryCount c = retryLimit pol"
  then show "step (Reject k r) w =
                w\<lparr>thens := (thens w)(k := None),
                  settled := settled w @ [Rejected (promise c) [CallRecord c]]\<rparr>"
    using finalize_at_limit [of w k c pol r] by simp
qed

theorem C9_retryCount_within_limit_witness:
  "\<lparr>method = Delete, args = [], promise = 0, retryCount = 2\<rparr>
     \<in> pending (exec [Call Delete [], Reject 0 JUndefined, Timeout 1, Reject 1 JNull]
                  scenario_world)
   \<and> (\<exists>pol. methods (exec [Call Delete [], Reject 0 JUndefined, Timeout 1, Reject 1 JNull]
                        scenario_world)
                (method \<lparr>method = Delete, args = [], promise = 0, retryCount = 2\<rparr>) = Some pol
            \<and> 0 \<le> retryCount \<lparr>method = Delete, args = [], promise = 0, retryCount = 2\<rparr>
            \<and> retryCount \<lparr>method = Delete, args = [], promise = 0, retryCount = 2\<rparr>
                \<le> retryLimit pol)"
proof -
  let ?obj = "\<lparr>retryTimeout = 100, methods = [Delete \<mapsto> \<lparr>retryLimit = 2\<rparr>],
           transport = \<lparr>calls = [], disposed = 0\<rparr>, failedCalls = [], retryTimer = None\<rparr>"
  let ?es = "[Call Delete [], Reject 0 JUndefined, Timeout 1, Reject 1 JNull]"
  have obj: "TransportRetry (Some \<lparr>calls = [], disposed = 0\<rparr>) (Some scenario_options) = Inr ?obj"
    by (simp add: TransportRetry_def scenario_options_def)
  have w: "exec ?es scenario_world = exec ?es (boot ?obj)"
    by (simp add: scenario_world_def)
  have run: "failedCalls (exec ?es scenario_world) =
               [\<lparr>method = Delete, args = [], promise = 0, retryCount = 2\<rparr>]"
    by (simp add: scenario_world_def boot_def exec_def transportMethod_def sendTransportCall_def
        invoke_def on_rejected_def js_and_def addFailedCall_def retryFailedCalls_def Let_def
        loop_Cons loop_Nil)
  have mem: "\<lparr>method = Delete, args = [], promise = 0, retryCount = 2\<rparr>
               \<in> pending (exec ?es scenario_world)"
    unfolding pending_def run by simp
  show ?thesis
    using C9_retryCount_within_limit [OF obj w] mem by blast
qed

subsection \<open>One timer at a time\<close>

lemma one_timer_boot: "retryTimer obj = None \<Longrightarrow> one_timer (boot obj)"
  by (simp add: one_timer_def boot_def)

lemma one_timer_add: "one_timer w \<Longrightarrow> one_timer (addFailedCall c w)"
  by (auto simp: one_timer_def addFailedCall_def Let_def split: option.splits if_splits)

lemma one_timer_fire:
  assumes "one_timer w" and "timers w h = Some d"
  shows "retryTimer w = Some h" and "timers w = [h \<mapsto> d]" and "h < next_timer w"
proof -
  have d: "dom (timers w) = set_option (retryTimer w)"
    and lt: "\<forall>h \<in> dom (timers w). h < next_timer w"
    using assms(1) by (simp_all add: one_timer_def)
  have "h \<in> dom (timers w)" using assms(2) by blast
  then show rt: "retryTimer w = Some h" and "h < next_timer w"
    using d lt by (cases "retryTimer w"; auto)+
  have "dom (timers w) = {h}" using d rt by simp
  then show "timers w = [h \<mapsto> d]"
    using assms(2) by (auto simp: fun_eq_iff dom_def)
qed

lemma one_timer_step:
  assumes "one_timer w"
  shows "one_timer (step e w)"
proof (cases e)
  case (Call m as)
  then show ?thesis
    using assms
    by (auto simp: one_timer_def transportMethod_def sendTransportCall_def invoke_def
          split: option.splits)
next
  case (Fulfil k v)
  then show ?thesis
    using assms by (auto simp: one_timer_def on_fulfilled_def split: option.splits)
next
  case (Reject k r)
  show ?thesis
  proof (cases "thens w k")
    case None
    then show ?thesis using assms Reject by simp
  next
    case (Some c)
    let ?w = "w\<lparr>thens := (thens w)(k := None)\<rparr>"
    have w1: "one_timer ?w" using assms by (simp add: one_timer_def)
    have "one_timer (?w\<lparr>settled := x\<rparr>)" for x using w1 by (simp add: one_timer_def)
    then have "one_timer (on_rejected c r ?w)"
      using w1 one_timer_add [OF w1, of c]
      by (auto simp: on_rejected_def Let_def split: option.splits)
    then show ?thesis using Reject Some by simp
  qed
next
  case (Timeout h)
  show ?thesis
  proof (cases "timers w h")
    case None
    then show ?thesis using assms Timeout by simp
  next
    case (Some d)
    have "timers w = [h \<mapsto> d]" using one_timer_fire(2) [OF assms Some] .
    then show ?thesis
      using Timeout Some
      by (simp add: retryFailedCalls_def loop_closed one_timer_def)
  qed
next
  case Dispose
  then show ?thesis
    using assms by (auto simp: dispose_def Let_def one_timer_def split: option.splits)
qed

lemma one_timer_reachable:
  assumes "TransportRetry t opts = Inr obj"
  shows "one_timer (exec es (boot obj))"
  by (rule exec_invariant [where P = one_timer,
        OF one_timer_boot [OF TransportRetry_fresh(2) [OF assms]] one_timer_step])

lemma shared_timer:
  assumes "retryTimer w = Some h"
  shows "addFailedCall c w = w\<lparr>failedCalls := failedCalls w @ [c\<lparr>retryCount := retryCount c + 1\<rparr>]\<rparr>"
  using assms by (simp add: addFailedCall_def Let_def)

lemma fresh_timer:
  assumes "retryTimer w = None"
  shows "retryTimer (addFailedCall c w) = Some (next_timer w)"
    and "timers (addFailedCall c w) = (timers w)(next_timer w \<mapsto> retryTimeout w)"
  using assms by (simp_all add: addFailedCall_def Let_def)

lemma drain:
  assumes "timers w h = Some d"
  shows "step (Timeout h) w =
     w\<lparr>timers := (timers w)(h := None), retryTimer := None, failedCalls := [],
       transport := (transport w)\<lparr>calls := calls (transport w) @
                       map (\<lambda>c. (method c, args c)) (failedCalls w)\<rparr>,
       thens := (\<lambda>j. if length (calls (transport w)) \<le> j \<and>
                         j < length (calls (transport w)) + length (failedCalls w)
                      then Some (failedCalls w ! (j - length (calls (transport w))))
                      else thens w j)\<rparr>"
  using assms by (simp add: retryFailedCalls_def loop_closed cong: if_cong)

text \<open>
  Claim C6. In every state the retry transport reaches from its construction, the
  timeouts outstanding are exactly the one \<open>retryTimer\<close> refers to, so there is at
  most one. A call that fails while a timer is set is only appended to the queue: no
  further timeout is scheduled. When the timeout fires, every queued call is sent to
  the wrapped transport in that one step, in queue order (the order of enqueueing),
  and the queue is empty afterwards. The timer reference is then \<open>null\<close> and no
  timeout is outstanding, so a call that fails after the drain starts a new timeout,
  with a handle different from the one that fired.
\<close>

theorem C6_one_timer_batch_fifo:
  assumes "TransportRetry t opts = Inr obj" and "w = exec es (boot obj)"
  shows "dom (timers w) = set_option (retryTimer w)
       \<and> (\<forall>h h'. h \<in> dom (timers w) \<and> h' \<in> dom (timers w) \<longrightarrow> h = h')
       \<and> (\<forall>h c. retryTimer w = Some h \<longrightarrow>
             addFailedCall c w =
               w\<lparr>failedCalls := failedCalls w @ [c\<lparr>retryCount := retryCount c + 1\<rparr>]\<rparr>)
       \<and> (\<forall>h d. timers w h = Some d \<longrightarrow>
             calls (transport (step (Timeout h) w)) =
               calls (transport w) @ map (\<lambda>c. (method c, args c)) (failedCalls w) \<and>
             (\<forall>i < length (failedCalls w).
                thens (step (Timeout h) w) (length (calls (transport w)) + i) =
                  Some (failedCalls w ! i)) \<and>
             failedCalls (step (Timeout h) w) = [] \<and>
             retryTimer (step (Timeout h) w) = None \<and>
             timers (step (Timeout h) w) = Map.empty \<and>
             (\<forall>c. retryTimer (addFailedCall c (step (Timeout h) w)) = Some (next_timer w) \<and>
                  next_timer w \<noteq> h \<and>
                  timers (addFailedCall c (step (Timeout h) w)) =
                    [next_timer w \<mapsto> retryTimeout w]))"
proof -
  have inv: "one_timer w" using one_timer_reachable [OF assms(1), of es] assms(2) by simp
  have a: "dom (timers w) = set_option (retryTimer w)" using inv by (simp add: one_timer_def)
  have b: "\<forall>h h'. h \<in> dom (timers w) \<and> h' \<in> dom (timers w) \<longrightarrow> h = h'"
    unfolding a by (cases "retryTimer w") auto
  have c: "\<forall>h c. retryTimer w = Some h \<longrightarrow>
             addFailedCall c w =
               w\<lparr>failedCalls := failedCalls w @ [c\<lparr>retryCount := retryCount c + 1\<rparr>]\<rparr>"
    using shared_timer by blast
  have d: "calls (transport (step (Timeout h) w)) =
               calls (transport w) @ map (\<lambda>c. (method c, args c)) (failedCalls w) \<and>
             (\<forall>i < length (failedCalls w).
                thens (step (Timeout h) w) (length (calls (transport w)) + i) =
                  Some (failedCalls w ! i)) \<and>
             failedCalls (step (Timeout h) w) = [] \<and>
             retryTimer (step (Timeout h) w) = None \<and>
             timers (step (Timeout h) w) = Map.empty \<and>
             (\<forall>c. retryTimer (addFailedCall c (step (Timeout h) w)) = Some (next_timer w) \<and>
                  next_timer w \<noteq> h \<and>
                  timers (addFailedCall c (step (Timeout h) w)) =
                    [next_timer w \<mapsto> retryTimeout w])"
    if t: "timers w h = Some d" for h d
  proof -
    have tm: "timers w = [h \<mapsto> d]" and lt: "h < next_timer w"
      using one_timer_fire [OF inv t] by simp_all
    have e: "(timers w)(h := None) = Map.empty" by (simp add: tm)
    show ?thesis
      unfolding drain [OF t] e using lt
      by (simp add: fresh_timer)
  qed
  show ?thesis using a b c d by blast
qed

theorem C6_one_timer_batch_fifo_witness:
  "timers (exec [Call Delete [JStr ''a''], Call Delete [JStr ''b''], Reject 0 JUndefined,
                 Reject 1 JNull] scenario_world) 1 = Some 100
   \<and> dom (timers (exec [Call Delete [JStr ''a''], Call Delete [JStr ''b''], Reject 0 JUndefined,
                 Reject 1 JNull] scenario_world)) = {1}
   \<and> calls (transport (step (Timeout 1)
        (exec [Call Delete [JStr ''a''], Call Delete [JStr ''b''], Reject 0 JUndefined,
               Reject 1 JNull] scenario_world))) =
      [(Delete, [JStr ''a'']), (Delete, [JStr ''b'']), (Delete, [JStr ''a'']), (Delete, [JStr ''b''])]
   \<and> retryTimer (step (Timeout 1)
        (exec [Call Delete [JStr ''a''], Call Delete [JStr ''b''], Reject 0 JUndefined,
               Reject 1 JNull] scenario_world)) = None"
proof -
  let ?obj = "\<lparr>retryTimeout = 100, methods = [Delete \<mapsto> \<lparr>retryLimit = 2\<rparr>],
           transport = \<lparr>calls = [], disposed = 0\<rparr>, failedCalls = [], retryTimer = None\<rparr>"
  let ?es = "[Call Delete [JStr ''a''], Call Delete [JStr ''b''], Reject 0 JUndefined, Reject 1 JNull]"
  have obj: "TransportRetry (Some \<lparr>calls = [], disposed = 0\<rparr>) (Some scenario_options) = Inr ?obj"
    by (simp add: TransportRetry_def scenario_options_def)
  have w: "exec ?es scenario_world = exec ?es (boot ?obj)"
    by (simp add: scenario_world_def)
  have run: "timers (exec ?es scenario_world) 1 = Some 100"
    "retryTimer (exec ?es scenario_world) = Some 1"
    "calls (transport (exec ?es scenario_world)) = [(Delete, [JStr ''a'']), (Delete, [JStr ''b''])]"
    "failedCalls (exec ?es scenario_world) =
       [\<lparr>method = Delete, args = [JStr ''a''], promise = 0, retryCount = 1\<rparr>,
        \<lparr>method = Delete, args = [JStr ''b''], promise = 1, retryCount = 1\<rparr>]"
    by (simp_all add: scenario_world_def boot_def exec_def transportMethod_def sendTransportCall_def
        invoke_def on_rejected_def js_and_def addFailedCall_def Let_def)
  note c6 = C6_one_timer_batch_fifo [OF obj w]
  have "dom (timers (exec ?es scenario_world)) = {1}"
    using c6 run(2) by simp
  moreover have "calls (transport (step (Timeout 1) (exec ?es scenario_world))) =
      calls (transport (exec ?es scenario_world)) @
        map (\<lambda>c. (method c, args c)) (failedCalls (exec ?es scenario_world))"
    and "retryTimer (step (Timeout 1) (exec ?es scenario_world)) = None"
    using c6 run(1) by blast+
  ultimately show ?thesis using run by simp
qed

subsection \<open>Deferred results and call records correspond one to one\<close>

lemma pending_iff: "c \<in> pending w \<longleftrightarrow> (\<exists>k. thens w k = Some c) \<or> c \<in> set (failedCalls w)"
  by (auto simp: pending_def ran_def)

lemma promises_okI:
  assumes "\<And>k c. thens w k = Some c \<Longrightarrow> promise c < next_promise w"
    and "\<And>c. c \<in> set (failedCalls w) \<Longrightarrow> promise c < next_promise w"
    and "\<And>s. s \<in> set (settled w) \<Longrightarrow> settled_promise s < next_promise w"
    and "\<And>k k' c c'. thens w k = Some c \<Longrightarrow> thens w k' = Some c' \<Longrightarrow>
           promise c = promise c' \<Longrightarrow> k = k'"
    and "distinct (map promise (failedCalls w))"
    and "\<And>k c c'. thens w k = Some c \<Longrightarrow> c' \<in> set (failedCalls w) \<Longrightarrow>
           promise c \<noteq> promise c'"
    and "\<And>k c s. thens w k = Some c \<Longrightarrow> s \<in> set (settled w) \<Longrightarrow>
           settled_promise s \<noteq> promise c"
    and "\<And>c s. c \<in> set (failedCalls w) \<Longrightarrow> s \<in> set (settled w) \<Longrightarrow>
           settled_promise s \<noteq> promise c"
  shows "promises_ok w"
  unfolding promises_ok_def promises_fresh_def promises_unique_def settled_apart_def
proof (intro conjI ballI allI impI)
  fix c assume "c \<in> pending w"
  then show "promise c < next_promise w" using assms(1,2) by (auto simp: pending_iff)
next
  fix s assume "s \<in> set (settled w)"
  then show "settled_promise s < next_promise w" by (rule assms(3))
next
  fix k k' c c'
  assume "thens w k = Some c" "thens w k' = Some c'" "promise c = promise c'"
  then show "k = k'" by (rule assms(4))
next
  show "distinct (map promise (failedCalls w))" by (rule assms(5))
next
  fix k c assume "thens w k = Some c"
  then show "promise c \<notin> promise ` set (failedCalls w)" using assms(6) by blast
next
  fix c assume "c \<in> pending w"
  then show "promise c \<notin> settled_promise ` set (settled w)"
    using assms(7,8) by (auto simp: pending_iff) metis+
qed

lemma promises_okD:
  assumes "promises_ok w"
  shows "\<And>k c. thens w k = Some c \<Longrightarrow> promise c < next_promise w"
    and "\<And>c. c \<in> set (failedCalls w) \<Longrightarrow> promise c < next_promise w"
    and "\<And>s. s \<in> set (settled w) \<Longrightarrow> settled_promise s < next_promise w"
    and "\<And>k k' c c'. thens w k = Some c \<Longrightarrow> thens w k' = Some c' \<Longrightarrow>
           promise c = promise c' \<Longrightarrow> k = k'"
    and "distinct (map promise (failedCalls w))"
    and "\<And>k c c'. thens w k = Some c \<Longrightarrow> c' \<in> set (failedCalls w) \<Longrightarrow>
           promise c \<noteq> promise c'"
    and "\<And>k c s. thens w k = Some c \<Longrightarrow> s \<in> set (settled w) \<Longrightarrow>
           settled_promise s \<noteq> promise c"
    and "\<And>c s. c \<in> set (failedCalls w) \<Longrightarrow> s \<in> set (settled w) \<Longrightarrow>
           settled_promise s \<noteq> promise c"
proof -
  have fresh: "promises_fresh w" and uniq: "promises_unique w" and apart: "settled_apart w"
    using assms by (simp_all add: promises_ok_def)
  show "\<And>k c. thens w k = Some c \<Longrightarrow> promise c < next_promise w"
    using fresh by (auto simp: promises_fresh_def pending_iff)
  show "\<And>c. c \<in> set (failedCalls w) \<Longrightarrow> promise c < next_promise w"
    using fresh by (auto simp: promises_fresh_def pending_iff)
  show "\<And>s. s \<in> set (settled w) \<Longrightarrow> settled_promise s < next_promise w"
    using fresh by (auto simp: promises_fresh_def)
  show "\<And>k k' c c'. thens w k = Some c \<Longrightarrow> thens w k' = Some c' \<Longrightarrow>
           promise c = promise c' \<Longrightarrow> k = k'"
    using uniq unfolding promises_unique_def by blast
  show "distinct (map promise (failedCalls w))"
    using uniq by (simp add: promises_unique_def)
  show "\<And>k c c'. thens w k = Some c \<Longrightarrow> c' \<in> set (failedCalls w) \<Longrightarrow>
           promise c \<noteq> promise c'"
    using uniq unfolding promises_unique_def by (metis imageI)
  show "\<And>k c s. thens w k = Some c \<Longrightarrow> s \<in> set (settled w) \<Longrightarrow>
           settled_promise s \<noteq> promise c"
    using apart unfolding settled_apart_def by (metis imageI pending_iff)
  show "\<And>c s. c \<in> set (failedCalls w) \<Longrightarrow> s \<in> set (settled w) \<Longrightarrow>
           settled_promise s \<noteq> promise c"
    using apart unfolding settled_apart_def by (metis imageI pending_iff)
qed

lemma promises_ok_boot: "failedCalls obj = [] \<Longrightarrow> promises_ok (boot obj)"
  by (rule promises_okI) (simp_all add: boot_def)


lemma promises_ok_forget:
  assumes "promises_ok w"
  shows "promises_ok (w\<lparr>thens := (thens w)(k := None)\<rparr>)"
proof (rule promises_okI)
  note d = promises_okD [OF assms]
  let ?w = "w\<lparr>thens := (thens w)(k := None)\<rparr>"
  show "\<And>j x. thens ?w j = Some x \<Longrightarrow> promise x < next_promise ?w"
    using d(1) by (auto split: if_splits)
  show "\<And>x. x \<in> set (failedCalls ?w) \<Longrightarrow> promise x < next_promise ?w"
    using d(2) by simp
  show "\<And>s. s \<in> set (settled ?w) \<Longrightarrow> settled_promise s < next_promise ?w"
    using d(3) by simp
  show "\<And>j j' x y. thens ?w j = Some x \<Longrightarrow> thens ?w j' = Some y \<Longrightarrow>
           promise x = promise y \<Longrightarrow> j = j'"
    using d(4) by (auto split: if_splits)
  show "distinct (map promise (failedCalls ?w))" using d(5) by simp
  show "\<And>j x y. thens ?w j = Some x \<Longrightarrow> y \<in> set (failedCalls ?w) \<Longrightarrow>
           promise x \<noteq> promise y"
    using d(6) by (auto split: if_splits)
  show "\<And>j x s. thens ?w j = Some x \<Longrightarrow> s \<in> set (settled ?w) \<Longrightarrow>
           settled_promise s \<noteq> promise x"
    using d(7) by (auto split: if_splits)
  show "\<And>x s. x \<in> set (failedCalls ?w) \<Longrightarrow> s \<in> set (settled ?w) \<Longrightarrow>
           settled_promise s \<noteq> promise x"
    using d(8) by simp
qed

lemma promises_ok_settle:
  assumes "promises_ok w" and "thens w k = Some c" and "settled_promise s = promise c"
  shows "promises_ok (w\<lparr>thens := (thens w)(k := None), settled := settled w @ [s]\<rparr>)"
proof (rule promises_okI)
  note d = promises_okD [OF assms(1)]
  let ?w = "w\<lparr>thens := (thens w)(k := None), settled := settled w @ [s]\<rparr>"
  show "\<And>j x. thens ?w j = Some x \<Longrightarrow> promise x < next_promise ?w"
    using d(1) by (auto split: if_splits)
  show "\<And>x. x \<in> set (failedCalls ?w) \<Longrightarrow> promise x < next_promise ?w"
    using d(2) by simp
  show "\<And>z. z \<in> set (settled ?w) \<Longrightarrow> settled_promise z < next_promise ?w"
    using d(3) d(1) [OF assms(2)] assms(3) by auto
  show "\<And>j j' x y. thens ?w j = Some x \<Longrightarrow> thens ?w j' = Some y \<Longrightarrow>
           promise x = promise y \<Longrightarrow> j = j'"
    using d(4) by (auto split: if_splits)
  show "distinct (map promise (failedCalls ?w))" using d(5) by simp
  show "\<And>j x y. thens ?w j = Some x \<Longrightarrow> y \<in> set (failedCalls ?w) \<Longrightarrow>
           promise x \<noteq> promise y"
    using d(6) by (auto split: if_splits)
  show "settled_promise z \<noteq> promise x"
    if "thens ?w j = Some x" and "z \<in> set (settled ?w)" for j x z
  proof -
    from that(1) have j: "j \<noteq> k" and x: "thens w j = Some x" by (auto split: if_splits)
    have "promise x \<noteq> promise c" using d(4) [OF x assms(2)] j by blast
    moreover have "z \<in> set (settled w) \<Longrightarrow> settled_promise z \<noteq> promise x"
      using d(7) [OF x] .
    ultimately show ?thesis using that(2) assms(3) by auto
  qed
  show "settled_promise z \<noteq> promise x"
    if "x \<in> set (failedCalls ?w)" and "z \<in> set (settled ?w)" for x z
  proof -
    from that(1) have x: "x \<in> set (failedCalls w)" by simp
    have "promise c \<noteq> promise x" using d(6) [OF assms(2) x] .
    moreover have "z \<in> set (settled w) \<Longrightarrow> settled_promise z \<noteq> promise x"
      using d(8) [OF x] .
    ultimately show ?thesis using that(2) assms(3) by auto
  qed
qed

lemma promises_ok_requeue:
  assumes "promises_ok w" and "thens w k = Some c"
  shows "promises_ok (addFailedCall c (w\<lparr>thens := (thens w)(k := None)\<rparr>))"
proof (rule promises_okI)
  note d = promises_okD [OF assms(1)]
  let ?w = "addFailedCall c (w\<lparr>thens := (thens w)(k := None)\<rparr>)"
  have t: "thens ?w = (thens w)(k := None)"
    and q: "failedCalls ?w = failedCalls w @ [c\<lparr>retryCount := retryCount c + 1\<rparr>]"
    and s: "settled ?w = settled w" and n: "next_promise ?w = next_promise w"
    by (simp_all add: addFailedCall_def Let_def split: option.splits)
  show "\<And>j x. thens ?w j = Some x \<Longrightarrow> promise x < next_promise ?w"
    unfolding t n using d(1) by (auto split: if_splits)
  show "\<And>x. x \<in> set (failedCalls ?w) \<Longrightarrow> promise x < next_promise ?w"
    unfolding q n using d(2) d(1) [OF assms(2)] by auto
  show "\<And>z. z \<in> set (settled ?w) \<Longrightarrow> settled_promise z < next_promise ?w"
    unfolding s n using d(3) by simp
  show "\<And>j j' x y. thens ?w j = Some x \<Longrightarrow> thens ?w j' = Some y \<Longrightarrow>
           promise x = promise y \<Longrightarrow> j = j'"
    unfolding t using d(4) by (auto split: if_splits)
  show "distinct (map promise (failedCalls ?w))"
    unfolding q using d(5) d(6) [OF assms(2)] by auto
  show "promise x \<noteq> promise y"
    if "thens ?w j = Some x" and "y \<in> set (failedCalls ?w)" for j x y
  proof -
    from that(1) have j: "j \<noteq> k" and x: "thens w j = Some x"
      unfolding t by (auto split: if_splits)
    have "promise x \<noteq> promise c" using d(4) [OF x assms(2)] j by blast
    moreover have "y \<in> set (failedCalls w) \<Longrightarrow> promise x \<noteq> promise y"
      using d(6) [OF x] .
    ultimately show ?thesis using that(2) unfolding q by auto
  qed
  show "\<And>j x z. thens ?w j = Some x \<Longrightarrow> z \<in> set (settled ?w) \<Longrightarrow>
           settled_promise z \<noteq> promise x"
    unfolding t s using d(7) by (auto split: if_splits)
  show "settled_promise z \<noteq> promise x"
    if "x \<in> set (failedCalls ?w)" and "z \<in> set (settled ?w)" for x z
  proof -
    have z: "z \<in> set (settled w)" using that(2) unfolding s .
    have "settled_promise z \<noteq> promise c" using d(7) [OF assms(2) z] .
    moreover have "x \<in> set (failedCalls w) \<Longrightarrow> settled_promise z \<noteq> promise x"
      using d(8) [OF _ z] .
    ultimately show ?thesis using that(1) unfolding q by auto
  qed
qed

lemma promises_ok_send:
  assumes "promises_ok w" and "failedCalls w = c # rest"
  shows "promises_ok (sendTransportCall c (w\<lparr>failedCalls := rest\<rparr>))"
proof (rule promises_okI)
  note d = promises_okD [OF assms(1)]
  let ?k = "length (calls (transport w))"
  let ?w = "sendTransportCall c (w\<lparr>failedCalls := rest\<rparr>)"
  have t: "thens ?w = (thens w)(?k \<mapsto> c)"
    and q: "failedCalls ?w = rest"
    and s: "settled ?w = settled w" and n: "next_promise ?w = next_promise w"
    by (simp_all add: sendTransportCall_def invoke_def)
  have c: "c \<in> set (failedCalls w)" and r: "\<And>x. x \<in> set rest \<Longrightarrow> x \<in> set (failedCalls w)"
    and cr: "promise c \<notin> promise ` set rest" and dr: "distinct (map promise rest)"
    using assms(2) d(5) by auto
  show "\<And>j x. thens ?w j = Some x \<Longrightarrow> promise x < next_promise ?w"
    unfolding t n using d(1) d(2) [OF c] by (auto split: if_splits)
  show "\<And>x. x \<in> set (failedCalls ?w) \<Longrightarrow> promise x < next_promise ?w"
    unfolding q n using d(2) r by auto
  show "\<And>z. z \<in> set (settled ?w) \<Longrightarrow> settled_promise z < next_promise ?w"
    unfolding s n using d(3) by simp
  show "j = j'"
    if "thens ?w j = Some x" and "thens ?w j' = Some y" and "promise x = promise y"
    for j j' x y
  proof -
    have old: "i \<noteq> ?k \<Longrightarrow> thens w i = Some z \<Longrightarrow> promise z \<noteq> promise c" for i z
      using d(6) [OF _ c] by blast
    consider "j = ?k" "j' = ?k" | "j = ?k" "j' \<noteq> ?k" | "j \<noteq> ?k" "j' = ?k"
      | "j \<noteq> ?k" "j' \<noteq> ?k" by blast
    then show ?thesis
    proof cases
      case 1 then show ?thesis by simp
    next
      case 2 then show ?thesis using that old [of j' y] unfolding t by auto
    next
      case 3 then show ?thesis using that old [of j x] unfolding t by auto
    next
      case 4 then show ?thesis using that d(4) [of j x j' y] unfolding t by auto
    qed
  qed
  show "distinct (map promise (failedCalls ?w))" unfolding q by (rule dr)
  show "promise x \<noteq> promise y"
    if "thens ?w j = Some x" and "y \<in> set (failedCalls ?w)" for j x y
  proof -
    have y: "y \<in> set rest" using that(2) unfolding q .
    show ?thesis
    proof (cases "j = ?k")
      case True
      then have "x = c" using that(1) unfolding t by simp
      then show ?thesis using cr y by auto
    next
      case False
      then have "thens w j = Some x" using that(1) unfolding t by simp
      then show ?thesis using d(6) r [OF y] by blast
    qed
  qed
  show "settled_promise z \<noteq> promise x"
    if "thens ?w j = Some x" and "z \<in> set (settled ?w)" for j x z
  proof -
    have z: "z \<in> set (settled w)" using that(2) unfolding s .
    show ?thesis
    proof (cases "j = ?k")
      case True
      then have "x = c" using that(1) unfolding t by simp
      then show ?thesis using d(8) [OF c z] by simp
    next
      case False
      then have "thens w j = Some x" using that(1) unfolding t by simp
      then show ?thesis using d(7) z by blast
    qed
  qed
  show "\<And>x z. x \<in> set (failedCalls ?w) \<Longrightarrow> z \<in> set (settled ?w) \<Longrightarrow>
           settled_promise z \<noteq> promise x"
    unfolding q s using d(8) r by blast
qed

lemma promises_ok_new:
  assumes "promises_ok w"
  shows "promises_ok (sendTransportCall
            \<lparr>method = m, args = as, promise = next_promise w, retryCount = 0\<rparr>
            (w\<lparr>next_promise := Suc (next_promise w)\<rparr>))"
proof (rule promises_okI)
  note d = promises_okD [OF assms(1)]
  let ?k = "length (calls (transport w))"
  let ?c = "\<lparr>method = m, args = as, promise = next_promise w, retryCount = 0\<rparr>"
  let ?w = "sendTransportCall ?c (w\<lparr>next_promise := Suc (next_promise w)\<rparr>)"
  have t: "thens ?w = (thens w)(?k \<mapsto> ?c)"
    and q: "failedCalls ?w = failedCalls w"
    and s: "settled ?w = settled w" and n: "next_promise ?w = Suc (next_promise w)"
    by (simp_all add: sendTransportCall_def invoke_def)
  have old: "thens w i = Some z \<Longrightarrow> promise z \<noteq> promise ?c" for i z
    using d(1) [of i z] by simp
  show "\<And>j x. thens ?w j = Some x \<Longrightarrow> promise x < next_promise ?w"
    unfolding t n using d(1) by (auto split: if_splits simp: less_Suc_eq)
  show "\<And>x. x \<in> set (failedCalls ?w) \<Longrightarrow> promise x < next_promise ?w"
    unfolding q n using d(2) by (auto simp: less_Suc_eq)
  show "\<And>z. z \<in> set (settled ?w) \<Longrightarrow> settled_promise z < next_promise ?w"
    unfolding s n using d(3) by (auto simp: less_Suc_eq)
  show "j = j'"
    if "thens ?w j = Some x" and "thens ?w j' = Some y" and "promise x = promise y"
    for j j' x y
  proof -
    consider "j = ?k" "j' = ?k" | "j = ?k" "j' \<noteq> ?k" | "j \<noteq> ?k" "j' = ?k"
      | "j \<noteq> ?k" "j' \<noteq> ?k" by blast
    then show ?thesis
    proof cases
      case 1 then show ?thesis by simp
    next
      case 2 then show ?thesis using that old [of j' y] unfolding t by auto
    next
      case 3 then show ?thesis using that old [of j x] unfolding t by auto
    next
      case 4 then show ?thesis using that d(4) [of j x j' y] unfolding t by auto
    qed
  qed
  show "distinct (map promise (failedCalls ?w))"
    unfolding q using d(5) by simp
  show "promise x \<noteq> promise y"
    if "thens ?w j = Some x" and "y \<in> set (failedCalls ?w)" for j x y
  proof -
    have y: "y \<in> set (failedCalls w)" using that(2) unfolding q .
    show ?thesis
    proof (cases "j = ?k")
      case True
      then have "x = ?c" using that(1) unfolding t by simp
      then show ?thesis using d(2) [OF y] by simp
    next
      case False
      then have "thens w j = Some x" using that(1) unfolding t by simp
      then show ?thesis using d(6) y by blast
    qed
  qed
  show "settled_promise z \<noteq> promise x"
    if "thens ?w j = Some x" and "z \<in> set (settled ?w)" for j x z
  proof -
    have z: "z \<in> set (settled w)" using that(2) unfolding s .
    show ?thesis
    proof (cases "j = ?k")
      case True
      then have "x = ?c" using that(1) unfolding t by simp
      then show ?thesis using d(3) [OF z] by simp
    next
      case False
      then have "thens w j = Some x" using that(1) unfolding t by simp
      then show ?thesis using d(7) z by blast
    qed
  qed
  show "\<And>x z. x \<in> set (failedCalls ?w) \<Longrightarrow> z \<in> set (settled ?w) \<Longrightarrow>
           settled_promise z \<noteq> promise x"
    unfolding q s using d(8) by blast
qed

lemma promises_ok_host:
  "promises_ok (w\<lparr>timers := a, retryTimer := b\<rparr>) = promises_ok w"
  by (simp add: promises_ok_def promises_fresh_def promises_unique_def settled_apart_def
        pending_def)

lemma promises_ok_step:
  assumes "promises_ok w"
  shows "promises_ok (step e w)"
proof (cases e)
  case (Call m as)
  show ?thesis
  proof (cases "managed w m")
    case True
    then have "snd (transportMethod m as w) =
        sendTransportCall \<lparr>method = m, args = as, promise = next_promise w, retryCount = 0\<rparr>
          (w\<lparr>next_promise := Suc (next_promise w)\<rparr>)"
      by (auto simp: managed_def transportMethod_def split: option.splits)
    then show ?thesis using Call promises_ok_new [OF assms, of m as] by simp
  next
    case False
    then have "snd (transportMethod m as w) =
        w\<lparr>transport := (transport w)\<lparr>calls := calls (transport w) @ [(m, as)]\<rparr>\<rparr>"
      by (auto simp: managed_def transportMethod_def invoke_def split: option.splits)
    moreover have "promises_ok (w\<lparr>transport := x\<rparr>)" for x
      using assms
      by (simp add: promises_ok_def promises_fresh_def promises_unique_def settled_apart_def
            pending_def)
    ultimately show ?thesis using Call by simp
  qed
next
  case (Fulfil k v)
  show ?thesis
  proof (cases "thens w k")
    case None
    then show ?thesis using assms Fulfil by simp
  next
    case (Some c)
    then show ?thesis
      using Fulfil promises_ok_settle [OF assms Some, of "Resolved (promise c) v"]
      by (simp add: on_fulfilled_def)
  qed
next
  case (Reject k r)
  show ?thesis
  proof (cases "thens w k")
    case None
    then show ?thesis using assms Reject by simp
  next
    case (Some c)
    have "promises_ok (on_rejected c r (w\<lparr>thens := (thens w)(k := None)\<rparr>))"
      using promises_ok_settle [OF assms Some, of "Rejected (promise c) [CallRecord c]"]
        promises_ok_requeue [OF assms Some] promises_ok_forget [OF assms, of k]
      by (auto simp: on_rejected_def Let_def split: option.splits)
    then show ?thesis using Reject Some by simp
  qed
next
  case (Timeout h)
  show ?thesis
  proof (cases "timers w h")
    case None
    then show ?thesis using assms Timeout by simp
  next
    case (Some d)
    have "promises_ok (w\<lparr>timers := (timers w)(h := None), retryTimer := None\<rparr>)"
      using assms by (simp only: promises_ok_host)
    then have "promises_ok (retryFailedCalls_loop
                 (w\<lparr>timers := (timers w)(h := None), retryTimer := None\<rparr>))"
      by (rule loop_invariant [where P = promises_ok]) (rule promises_ok_send)
    then show ?thesis using Timeout Some by (simp add: retryFailedCalls_def)
  qed
next
  case Dispose
  have "promises_ok (w\<lparr>failedCalls := []\<rparr>)"
    by (rule promises_okI) (use promises_okD [OF assms] in auto)
  moreover have "promises_ok (w\<lparr>failedCalls := [], transport := x\<rparr>)" for x
    using calculation
    by (simp add: promises_ok_def promises_fresh_def promises_unique_def settled_apart_def
          pending_def)
  ultimately show ?thesis
    using Dispose by (auto simp: dispose_def Let_def split: option.splits)
qed

lemma promises_ok_reachable:
  assumes "TransportRetry t opts = Inr obj"
  shows "promises_ok (exec es (boot obj))"
  by (rule exec_invariant [where P = promises_ok,
        OF promises_ok_boot [OF TransportRetry_fresh(1) [OF assms]] promises_ok_step])

subsection \<open>A finished call stays finished\<close>

lemma settled_loop [simp]: "settled (retryFailedCalls_loop w) = settled w"
  by (subst loop_closed) simp

lemma next_promise_loop [simp]: "next_promise (retryFailedCalls_loop w) = next_promise w"
  by (subst loop_closed) simp

lemma finished_step:
  assumes "finished p w"
  shows "finished p (step e w) \<and>
         filter (\<lambda>s. settled_promise s = p) (settled (step e w)) =
         filter (\<lambda>s. settled_promise s = p) (settled w)"
proof -
  have lt: "p < next_promise w" and np: "\<And>c. c \<in> pending w \<Longrightarrow> promise c \<noteq> p"
    using assms by (auto simp: finished_def)
  show ?thesis
  proof (cases e)
    case (Call m as)
    show ?thesis
    proof (cases "managed w m")
      case True
      let ?c = "\<lparr>method = m, args = as, promise = next_promise w, retryCount = 0\<rparr>"
      let ?w = "sendTransportCall ?c (w\<lparr>next_promise := Suc (next_promise w)\<rparr>)"
      have eq: "step e w = ?w"
        using True Call by (auto simp: managed_def transportMethod_def split: option.splits)
      have "pending ?w \<subseteq> insert ?c (pending w)"
        using pending_send [of ?c "w\<lparr>next_promise := Suc (next_promise w)\<rparr>"]
        by (simp add: pending_def)
      then have cases: "x = ?c \<or> x \<in> pending w" if "x \<in> pending ?w" for x
        using that by blast
      have "promise x \<noteq> p" if "x \<in> pending ?w" for x
      proof -
        from cases [OF that] show ?thesis
        proof
          assume "x = ?c"
          then have "promise x = next_promise w" by simp
          then show ?thesis using lt by simp
        next
          assume "x \<in> pending w"
          then show ?thesis by (rule np)
        qed
      qed
      then have "p \<notin> promise ` pending ?w" by (metis imageE)
      moreover have "settled ?w = settled w" and "next_promise ?w = Suc (next_promise w)"
        by (simp_all add: sendTransportCall_def invoke_def)
      ultimately show ?thesis
        unfolding eq using lt by (simp add: finished_def)
    next
      case False
      then have "step e w = w\<lparr>transport := (transport w)\<lparr>calls := calls (transport w) @ [(m, as)]\<rparr>\<rparr>"
        using Call by (auto simp: managed_def transportMethod_def invoke_def split: option.splits)
      then show ?thesis using assms by (simp add: finished_def pending_def)
    qed
  next
    case (Fulfil k v)
    show ?thesis
    proof (cases "thens w k")
      case None
      then show ?thesis using assms Fulfil by simp
    next
      case (Some c)
      have "promise c \<noteq> p" using np pending_member [OF Some] by blast
      moreover have "pending (w\<lparr>thens := (thens w)(k := None)\<rparr>) \<subseteq> pending w"
        by (rule pending_forget)
      ultimately show ?thesis
        using Fulfil Some lt np
        by (auto simp: finished_def on_fulfilled_def pending_def)
    qed
  next
    case (Reject k r)
    show ?thesis
    proof (cases "thens w k")
      case None
      then show ?thesis using assms Reject by simp
    next
      case (Some c)
      let ?w = "w\<lparr>thens := (thens w)(k := None)\<rparr>"
      have c: "promise c \<noteq> p" using np pending_member [OF Some] by blast
      have sub: "pending ?w \<subseteq> pending w" by (rule pending_forget)
      have f: "finished p ?w" using lt np sub by (auto simp: finished_def)
      have a: "finished p (?w\<lparr>settled := x\<rparr>)" for x
        using f by (simp add: finished_def pending_def)
      have b: "finished p (addFailedCall c ?w)"
        using f c
        by (auto simp: finished_def pending_add)
           (simp add: addFailedCall_def Let_def split: option.splits)
      have s: "settled (addFailedCall c ?w) = settled w"
        by (simp add: addFailedCall_def Let_def split: option.splits)
      show ?thesis
        using Reject Some a b f c s
        by (auto simp: on_rejected_def Let_def split: option.splits)
    qed
  next
    case (Timeout h)
    show ?thesis
    proof (cases "timers w h")
      case None
      then show ?thesis using assms Timeout by simp
    next
      case (Some d)
      let ?w = "w\<lparr>timers := (timers w)(h := None), retryTimer := None\<rparr>"
      have "pending (retryFailedCalls_loop ?w) \<subseteq> pending ?w" by (rule pending_loop)
      then have "pending (retryFailedCalls_loop ?w) \<subseteq> pending w" by (simp add: pending_def)
      then show ?thesis
        using Timeout Some lt np by (auto simp: finished_def retryFailedCalls_def)
    qed
  next
    case Dispose
    then show ?thesis
      using assms
      by (auto simp: dispose_def Let_def finished_def pending_def split: option.splits)
  qed
qed

lemma finished_exec:
  assumes "finished p w"
  shows "finished p (exec es w) \<and>
         filter (\<lambda>s. settled_promise s = p) (settled (exec es w)) =
         filter (\<lambda>s. settled_promise s = p) (settled w)"
  using assms unfolding exec_def
proof (induction es arbitrary: w)
  case Nil
  then show ?case by simp
next
  case (Cons e es)
  from finished_step [OF Cons.prems, of e]
  have f: "finished p (step e w)"
    and s: "filter (\<lambda>s. settled_promise s = p) (settled (step e w)) =
            filter (\<lambda>s. settled_promise s = p) (settled w)" by simp_all
  show ?case using Cons.IH [OF f] s by simp
qed

lemma settle_finishes:
  assumes "promises_ok w" and "thens w k = Some c" and "settled_promise s = promise c"
  shows "finished (promise c) (w\<lparr>thens := (thens w)(k := None), settled := settled w @ [s]\<rparr>)"
    and "filter (\<lambda>z. settled_promise z = promise c)
           (settled (w\<lparr>thens := (thens w)(k := None), settled := settled w @ [s]\<rparr>)) = [s]"
proof -
  note d = promises_okD [OF assms(1)]
  let ?w = "w\<lparr>thens := (thens w)(k := None), settled := settled w @ [s]\<rparr>"
  have "promise x \<noteq> promise c" if "x \<in> pending ?w" for x
  proof -
    from that consider j where "j \<noteq> k" "thens w j = Some x" | "x \<in> set (failedCalls w)"
      by (auto simp: pending_iff split: if_splits)
    then show ?thesis
    proof cases
      case 1 then show ?thesis using d(4) [OF 1(2) assms(2)] by blast
    next
      case 2 then show ?thesis using d(6) [OF assms(2) 2] by simp
    qed
  qed
  then have ne: "\<And>x. x \<in> pending ?w \<Longrightarrow> promise x \<noteq> promise c" .
  have "promise c \<notin> promise ` pending ?w"
  proof
    assume "promise c \<in> promise ` pending ?w"
    then obtain x where "x \<in> pending ?w" and "promise c = promise x" by (elim imageE)
    then show False using ne [of x] by simp
  qed
  then show "finished (promise c) ?w"
    using d(1) [OF assms(2)] by (simp add: finished_def)
  have "filter (\<lambda>z. settled_promise z = promise c) (settled w) = []"
    using d(7) [OF assms(2)] by (auto simp: filter_empty_conv)
  then show "filter (\<lambda>z. settled_promise z = promise c) (settled ?w) = [s]"
    using assms(3) by simp
qed

text \<open>
  Claim C7. In every state the retry transport reaches from its construction, when
  the wrapped transport fulfils an attempt of a managed call (the first or a retry)
  with a value, the resolver of that call is invoked in that step with the value as
  it is, and nothing else changes. Whatever happens afterwards, this remains the only
  continuation ever invoked for the call's deferred result, and no call record for
  it is awaiting the wrapped transport or queued again: the call is never
  redispatched.
\<close>

theorem C7_success_is_final:
  assumes "TransportRetry t opts = Inr obj" and "w = exec es (boot obj)"
    and "thens w k = Some c"
  shows "step (Fulfil k v) w =
           w\<lparr>thens := (thens w)(k := None),
             settled := settled w @ [Resolved (promise c) v]\<rparr>
       \<and> (\<forall>es'. filter (\<lambda>s. settled_promise s = promise c)
                   (settled (exec es' (step (Fulfil k v) w))) = [Resolved (promise c) v]
               \<and> promise c \<notin> promise ` pending (exec es' (step (Fulfil k v) w)))"
proof -
  let ?w = "w\<lparr>thens := (thens w)(k := None), settled := settled w @ [Resolved (promise c) v]\<rparr>"
  have ok: "promises_ok w" using promises_ok_reachable [OF assms(1), of es] assms(2) by simp
  have eq: "step (Fulfil k v) w = ?w" using assms(3) by (simp add: on_fulfilled_def)
  have fin: "finished (promise c) ?w"
    and once: "filter (\<lambda>z. settled_promise z = promise c) (settled ?w) = [Resolved (promise c) v]"
    using settle_finishes [OF ok assms(3), of "Resolved (promise c) v"] by simp_all
  have "filter (\<lambda>s. settled_promise s = promise c) (settled (exec es' ?w)) =
          [Resolved (promise c) v]
        \<and> promise c \<notin> promise ` pending (exec es' ?w)" for es'
    using finished_exec [OF fin, of es'] once by (simp add: finished_def)
  then show ?thesis unfolding eq by simp
qed

theorem C7_success_is_final_witness:
  "thens (exec [Call Delete [], Reject 0 JUndefined, Timeout 1] scenario_world) 1 =
     Some \<lparr>method = Delete, args = [], promise = 0, retryCount = 1\<rparr>
   \<and> filter (\<lambda>s. settled_promise s = 0)
        (settled (exec [Reject 1 JUndefined, Timeout 2, Call Delete [], Fulfil 1 JNull]
           (step (Fulfil 1 (JStr ''ok''))
              (exec [Call Delete [], Reject 0 JUndefined, Timeout 1] scenario_world)))) =
      [Resolved 0 (JStr ''ok'')]
   \<and> 0 \<notin> promise ` pending
        (exec [Reject 1 JUndefined, Timeout 2, Call Delete [], Fulfil 1 JNull]
           (step (Fulfil 1 (JStr ''ok''))
              (exec [Call Delete [], Reject 0 JUndefined, Timeout 1] scenario_world)))"
proof -
  let ?obj = "\<lparr>retryTimeout = 100, methods = [Delete \<mapsto> \<lparr>retryLimit = 2\<rparr>],
           transport = \<lparr>calls = [], disposed = 0\<rparr>, failedCalls = [], retryTimer = None\<rparr>"
  let ?es = "[Call Delete [], Reject 0 JUndefined, Timeout 1]"
  have obj: "TransportRetry (Some \<lparr>calls = [], disposed = 0\<rparr>) (Some scenario_options) = Inr ?obj"
    by (simp add: TransportRetry_def scenario_options_def)
  have w: "exec ?es scenario_world = exec ?es (boot ?obj)"
    by (simp add: scenario_world_def)
  have run: "thens (exec ?es scenario_world) 1 =
               Some \<lparr>method = Delete, args = [], promise = 0, retryCount = 1\<rparr>"
    by (simp add: scenario_world_def boot_def exec_def transportMethod_def sendTransportCall_def
        invoke_def on_rejected_def js_and_def addFailedCall_def retryFailedCalls_def Let_def
        loop_Cons loop_Nil)
  note c7 = C7_success_is_final [OF obj w run, of "JStr ''ok''"]
  show ?thesis
    using spec [OF conjunct2 [OF c7],
            of "[Reject 1 JUndefined, Timeout 2, Call Delete [], Fulfil 1 JNull]"] run
    by (simp del: step.simps)
qed

section \<open>Retry until the limit\<close>

subsection \<open>Reactions are attached to invocations that were made\<close>

lemma keys_ok_mono:
  assumes "keys_ok w" and "\<And>k c. thens w' k = Some c \<Longrightarrow> thens w k = Some c"
    and "calls (transport w') = calls (transport w)"
  shows "keys_ok w'"
  using assms unfolding keys_ok_def by simp

lemma keys_ok_send:
  assumes "keys_ok w"
  shows "keys_ok (sendTransportCall c w)"
  unfolding keys_ok_def
proof (intro allI impI)
  fix k x
  assume a: "thens (sendTransportCall c w) k = Some x"
  let ?n = "length (calls (transport w))"
  have t: "thens (sendTransportCall c w) = (thens w)(?n \<mapsto> c)"
    and l: "calls (transport (sendTransportCall c w)) = calls (transport w) @ [(method c, args c)]"
    by (simp_all add: sendTransportCall_def invoke_def)
  show "k < length (calls (transport (sendTransportCall c w))) \<and>
        calls (transport (sendTransportCall c w)) ! k = (method x, args x)"
  proof (cases "k = ?n")
    case True
    then have "x = c" using a unfolding t by simp
    then show ?thesis using True unfolding l by simp
  next
    case False
    then have "thens w k = Some x" using a unfolding t by simp
    then have "k < ?n \<and> calls (transport w) ! k = (method x, args x)"
      using assms unfolding keys_ok_def by blast
    then show ?thesis unfolding l by (simp add: nth_append)
  qed
qed

lemma keys_ok_step:
  assumes "keys_ok w"
  shows "keys_ok (step e w)"
proof (cases e)
  case (Call m as)
  show ?thesis
  proof (cases "managed w m")
    case True
    then have eq: "step e w =
        sendTransportCall \<lparr>method = m, args = as, promise = next_promise w, retryCount = 0\<rparr>
          (w\<lparr>next_promise := Suc (next_promise w)\<rparr>)"
      using Call by (auto simp: managed_def transportMethod_def split: option.splits)
    have "keys_ok (w\<lparr>next_promise := Suc (next_promise w)\<rparr>)"
      by (rule keys_ok_mono [OF assms]) simp_all
    then show ?thesis unfolding eq by (rule keys_ok_send)
  next
    case False
    then have eq: "step e w =
        w\<lparr>transport := (transport w)\<lparr>calls := calls (transport w) @ [(m, as)]\<rparr>\<rparr>"
      using Call by (auto simp: managed_def transportMethod_def invoke_def split: option.splits)
    show ?thesis
      unfolding eq keys_ok_def
    proof (intro allI impI)
      fix k c
      assume "thens (w\<lparr>transport := (transport w)\<lparr>calls := calls (transport w) @ [(m, as)]\<rparr>\<rparr>) k
                = Some c"
      then have "thens w k = Some c" by simp
      then have "k < length (calls (transport w)) \<and>
                 calls (transport w) ! k = (method c, args c)"
        using assms unfolding keys_ok_def by blast
      then show "k < length (calls (transport
                   (w\<lparr>transport := (transport w)\<lparr>calls := calls (transport w) @ [(m, as)]\<rparr>\<rparr>))) \<and>
                 calls (transport
                   (w\<lparr>transport := (transport w)\<lparr>calls := calls (transport w) @ [(m, as)]\<rparr>\<rparr>)) ! k
                   = (method c, args c)"
        by (simp add: nth_append)
    qed
  qed
next
  case (Fulfil k v)
  show ?thesis
    by (rule keys_ok_mono [OF assms])
       (use Fulfil in \<open>auto simp: on_fulfilled_def split: option.splits if_splits\<close>)
next
  case (Reject k r)
  show ?thesis
    by (rule keys_ok_mono [OF assms])
       (use Reject in \<open>auto simp: on_rejected_def addFailedCall_def Let_def
                          split: option.splits if_splits\<close>)
next
  case (Timeout h)
  show ?thesis
  proof (cases "timers w h")
    case None
    then show ?thesis using assms Timeout by simp
  next
    case (Some d)
    have "keys_ok (w\<lparr>timers := (timers w)(h := None), retryTimer := None\<rparr>)"
      by (rule keys_ok_mono [OF assms]) simp_all
    then have "keys_ok (retryFailedCalls_loop
                 (w\<lparr>timers := (timers w)(h := None), retryTimer := None\<rparr>))"
    proof (rule loop_invariant [where P = keys_ok])
      fix w' c rest
      assume k: "keys_ok w'"
      have "keys_ok (w'\<lparr>failedCalls := rest\<rparr>)"
        by (rule keys_ok_mono [OF k]) simp_all
      then show "keys_ok (sendTransportCall c (w'\<lparr>failedCalls := rest\<rparr>))"
        by (rule keys_ok_send)
    qed
    then show ?thesis using Timeout Some by (simp add: retryFailedCalls_def)
  qed
next
  case Dispose
  show ?thesis
    by (rule keys_ok_mono [OF assms])
       (use Dispose in \<open>auto simp: dispose_def transport_dispose_def Let_def
                          split: option.splits\<close>)
qed

lemma sound_step: "sound w \<Longrightarrow> sound (step e w)"
  by (simp add: sound_def promises_ok_step one_timer_step keys_ok_step)

lemma sound_exec: "sound w \<Longrightarrow> sound (exec es w)"
  by (rule exec_invariant [where P = sound]) (simp_all add: sound_step)

lemma sound_reachable:
  assumes "TransportRetry t opts = Inr obj"
  shows "sound (exec es (boot obj))"
proof -
  have "keys_ok (boot obj)" by (simp add: keys_ok_def boot_def)
  then have "sound (boot obj)"
    using promises_ok_boot [OF TransportRetry_fresh(1) [OF assms]]
      one_timer_boot [OF TransportRetry_fresh(2) [OF assms]]
    by (simp add: sound_def)
  then show ?thesis by (rule sound_exec)
qed

subsection \<open>Attempts and invocations of one call\<close>

lemma attempt_of_unique:
  assumes "promises_ok w" and "thens w k = Some c" and "promise c = p"
  shows "attempt_of p w j \<longleftrightarrow> j = k"
proof
  assume "attempt_of p w j"
  then obtain x where x: "thens w j = Some x" and "promise x = p"
    by (auto simp: attempt_of_def split: option.splits)
  then have "promise x = promise c" using assms(3) by simp
  then show "j = k" using promises_okD(4) [OF assms(1) x assms(2)] by simp
next
  assume "j = k"
  then show "attempt_of p w j" using assms(2,3) by (simp add: attempt_of_def)
qed

lemma no_attempt_queued:
  assumes "promises_ok w" and "c \<in> set (failedCalls w)" and "promise c = p"
  shows "\<not> attempt_of p w j"
proof
  assume "attempt_of p w j"
  then obtain x where x: "thens w j = Some x" and "promise x = p"
    by (auto simp: attempt_of_def split: option.splits)
  then show False using promises_okD(6) [OF assms(1) x assms(2)] assms(3) by simp
qed

lemma no_attempt_finished:
  assumes "finished p w"
  shows "\<not> attempt_of p w j"
proof
  assume "attempt_of p w j"
  then obtain x where x: "thens w j = Some x" and px: "promise x = p"
    by (auto simp: attempt_of_def split: option.splits)
  have "x \<in> pending w" using pending_member [OF x] .
  then have "p \<in> promise ` pending w" using px by (metis imageI)
  then show False using assms by (simp add: finished_def)
qed

lemma filter_distinct_key:
  assumes "distinct (map g xs)" and "x \<in> set xs"
  shows "filter (\<lambda>y. g y = g x) xs = [x]"
  using assms
proof (induction xs)
  case Nil
  then show ?case by simp
next
  case (Cons a xs)
  show ?case
  proof (cases "a = x")
    case True
    have "g y \<noteq> g x" if "y \<in> set xs" for y
      using Cons.prems(1) True that by (metis distinct.simps(2) imageI list.simps(9) set_map)
    then have "filter (\<lambda>y. g y = g x) xs = []" by (simp add: filter_empty_conv)
    then show ?thesis using True by simp
  next
    case False
    then have x: "x \<in> set xs" using Cons.prems(2) by simp
    have "g a \<noteq> g x"
      using Cons.prems(1) x by (metis distinct.simps(2) imageI list.simps(9) set_map)
    then show ?thesis using Cons.IH x Cons.prems(1) by simp
  qed
qed

lemma queued_single:
  assumes "promises_ok w" and "c \<in> set (failedCalls w)" and "promise c = p"
  shows "queued p w = [c]"
  using filter_distinct_key [OF promises_okD(5) [OF assms(1)] assms(2)] assms(3)
  by (simp add: queued_def)

lemma queued_none_in_flight:
  assumes "promises_ok w" and "thens w k = Some c" and "promise c = p"
  shows "queued p w = []"
proof -
  have "promise x \<noteq> p" if "x \<in> set (failedCalls w)" for x
    using promises_okD(6) [OF assms(1,2) that] assms(3) by simp
  then show ?thesis by (simp add: queued_def filter_empty_conv)
qed

lemma queued_none_finished:
  assumes "finished p w"
  shows "queued p w = []"
proof -
  have "promise x \<noteq> p" if "x \<in> set (failedCalls w)" for x
  proof
    assume "promise x = p"
    moreover have "x \<in> pending w" using that by (simp add: pending_def)
    ultimately have "p \<in> promise ` pending w" by (metis imageI)
    then show False using assms by (simp add: finished_def)
  qed
  then show ?thesis by (auto simp: queued_def filter_empty_conv)
qed

lemma dispatched_same_log:
  "calls (transport w') = calls (transport w) \<Longrightarrow> dispatched p w w' = []"
  by (simp add: dispatched_def)

lemma calls_settle_step:
  "calls (transport (step (Fulfil k v) w)) = calls (transport w)"
  "calls (transport (step (Reject k r) w)) = calls (transport w)"
  "calls (transport (step Dispose w)) = calls (transport w)"
  by (auto simp: on_fulfilled_def on_rejected_def addFailedCall_def dispose_def
        transport_dispose_def Let_def split: option.splits)

lemma dispatched_call_other:
  assumes "keys_ok w" and "p < next_promise w"
  shows "dispatched p w (step (Call m as) w) = []"
proof -
  let ?n = "length (calls (transport w))"
  have none: "thens w ?n = None"
  proof (cases "thens w ?n")
    case (Some c)
    then have "?n < ?n" using assms(1) unfolding keys_ok_def by blast
    then show ?thesis by simp
  qed simp
  show ?thesis
  proof (cases "managed w m")
    case True
    then have eq: "step (Call m as) w =
        sendTransportCall \<lparr>method = m, args = as, promise = next_promise w, retryCount = 0\<rparr>
          (w\<lparr>next_promise := Suc (next_promise w)\<rparr>)"
      by (auto simp: managed_def transportMethod_def split: option.splits)
    show ?thesis
      unfolding eq dispatched_def using assms(2)
      by (simp add: sendTransportCall_def invoke_def attempt_of_def)
  next
    case False
    then have eq: "step (Call m as) w =
        w\<lparr>transport := (transport w)\<lparr>calls := calls (transport w) @ [(m, as)]\<rparr>\<rparr>"
      by (auto simp: managed_def transportMethod_def invoke_def split: option.splits)
    show ?thesis
      unfolding eq dispatched_def using none by (simp add: attempt_of_def)
  qed
qed

lemma filter_nth_shift:
  "length (filter (\<lambda>j. P (xs ! (j - n))) [n..<n + length xs]) = length (filter P xs)"
proof -
  have "[n..<n + length xs] = map (\<lambda>i. i + n) [0..<length xs]"
    by (simp add: map_add_upt add.commute)
  then have "filter (\<lambda>j. P (xs ! (j - n))) [n..<n + length xs] =
             map (\<lambda>i. i + n) (filter (\<lambda>i. P (xs ! i)) [0..<length xs])"
    by (simp add: filter_map comp_def)
  moreover have "length (filter (\<lambda>i. P (xs ! i)) [0..<length xs]) = length (filter P xs)"
  proof -
    have "filter P xs = filter P (map (\<lambda>i. xs ! i) [0..<length xs])"
      by (simp add: map_nth)
    also have "\<dots> = map (\<lambda>i. xs ! i) (filter (\<lambda>i. P (xs ! i)) [0..<length xs])"
      by (simp add: filter_map comp_def)
    finally show ?thesis by simp
  qed
  ultimately show ?thesis by simp
qed

lemma dispatched_timeout:
  assumes "timers w h = Some d"
  shows "length (dispatched p w (step (Timeout h) w)) = length (queued p w)"
proof -
  let ?n = "length (calls (transport w))"
  let ?w = "step (Timeout h) w"
  have l: "length (calls (transport ?w)) = ?n + length (failedCalls w)"
    unfolding drain [OF assms] by simp
  have a: "attempt_of p ?w j = (promise (failedCalls w ! (j - ?n)) = p)"
    if "j \<in> set [?n..<?n + length (failedCalls w)]" for j
    using that unfolding drain [OF assms] by (simp add: attempt_of_def)
  have "filter (attempt_of p ?w) [?n..<?n + length (failedCalls w)] =
        filter (\<lambda>j. promise (failedCalls w ! (j - ?n)) = p) [?n..<?n + length (failedCalls w)]"
    by (rule filter_cong [OF refl]) (rule a)
  then show ?thesis
    unfolding dispatched_def l queued_def
    using filter_nth_shift [of "\<lambda>c. promise c = p" "failedCalls w" ?n] by simp
qed

subsection \<open>Following one call through a run\<close>

lemma settle_other:
  assumes "thens w j = Some x" and "promise x \<noteq> p" and "e = Fulfil j v \<or> e = Reject j r"
  shows "settled_for p (step e w) = settled_for p w"
    and "\<And>i. i \<noteq> j \<Longrightarrow> thens (step e w) i = thens w i"
    and "\<And>c. c \<in> set (failedCalls w) \<Longrightarrow> c \<in> set (failedCalls (step e w))"
    and "retryTimer w \<noteq> None \<Longrightarrow> retryTimer (step e w) \<noteq> None"
  using assms
  by (auto simp: settled_for_def on_fulfilled_def on_rejected_def addFailedCall_def Let_def
        split: option.splits)

lemma settle_nothing:
  assumes "thens w j = None" and "e = Fulfil j v \<or> e = Reject j r"
  shows "step e w = w"
  using assms by auto

lemma requeue_step:
  assumes "thens w k = Some c" and "methods w (method c) = Some pol"
    and "retryCount c < retryLimit pol" and "no_status r"
  shows "step (Reject k r) w = addFailedCall c (w\<lparr>thens := (thens w)(k := None)\<rparr>)"
  using assms no_status_falsy [of r] by (simp add: on_rejected_def Let_def)

lemma addFailedCall_fields:
  "failedCalls (addFailedCall c w) = failedCalls w @ [c\<lparr>retryCount := retryCount c + 1\<rparr>]"
  "retryTimer (addFailedCall c w) \<noteq> None"
  "settled (addFailedCall c w) = settled w"
  "thens (addFailedCall c w) = thens w"
  by (simp_all add: addFailedCall_def Let_def split: option.splits)

lemma tracked_flight_step:
  assumes s: "sound w" and pol: "methods w m = Some pol" and lim: "retryLimit pol = int N"
    and al: "allowed p e w" and f: "f \<le> N"
    and fl: "thens w k = Some \<lparr>method = m, args = as, promise = p, retryCount = int f\<rparr>"
    and st: "settled_for p w = []"
  shows "tracked m as p N (f + (if failure_of p e w then 1 else 0))
           (f + 1 + length (dispatched p w (step e w))) (step e w)"
proof -
  let ?c = "\<lparr>method = m, args = as, promise = p, retryCount = int f\<rparr>"
  have ok: "promises_ok w" and keys: "keys_ok w" using s by (simp_all add: sound_def)
  have att: "attempt_of p w j \<longleftrightarrow> j = k" for j
    using attempt_of_unique [OF ok fl] by simp
  have lt: "p < next_promise w" using promises_okD(1) [OF ok fl] by simp
  have kb: "k < length (calls (transport w))" using keys fl unfolding keys_ok_def by blast
  have stay: "tracked m as p N f (f + 1) w'"
    if "thens w' k = Some ?c" and "settled_for p w' = []" for w'
    using that f unfolding tracked_def by blast
  show ?thesis
  proof (cases e)
    case (Call m' as')
    have d: "dispatched p w (step e w) = []"
      unfolding Call using dispatched_call_other [OF keys lt] .
    have "thens (step e w) k = Some ?c" and "settled_for p (step e w) = []"
      using fl st kb Call
      by (auto simp: transportMethod_def sendTransportCall_def invoke_def settled_for_def
            split: option.splits)
    then show ?thesis using stay d Call by simp
  next
    case (Fulfil j v)
    have jk: "j \<noteq> k" using al att Fulfil by simp
    have d: "dispatched p w (step e w) = []"
      unfolding Fulfil by (rule dispatched_same_log) (rule calls_settle_step)
    have "thens (step e w) k = Some ?c \<and> settled_for p (step e w) = []"
    proof (cases "thens w j")
      case None
      then show ?thesis using fl st Fulfil by simp
    next
      case (Some x)
      have "promise x \<noteq> p" using att [of j] jk Some by (simp add: attempt_of_def)
      then show ?thesis
        using settle_other(1,2) [OF Some, of p e v] Fulfil jk fl st by simp
    qed
    then show ?thesis using stay d Fulfil by simp
  next
    case (Reject j r)
    have d: "dispatched p w (step e w) = []"
      unfolding Reject by (rule dispatched_same_log) (rule calls_settle_step)
    show ?thesis
    proof (cases "j = k")
      case False
      have nf: "\<not> failure_of p e w" using att False Reject by simp
      have "thens (step e w) k = Some ?c \<and> settled_for p (step e w) = []"
      proof (cases "thens w j")
        case None
        then show ?thesis using fl st Reject by simp
      next
        case (Some x)
        have "promise x \<noteq> p" using att [of j] False Some by (simp add: attempt_of_def)
        then show ?thesis
          using settle_other(1,2) [OF Some, of p e _ r] Reject False fl st by simp
      qed
      then show ?thesis using stay d nf by simp
    next
      case True
      have fo: "failure_of p e w" using att True Reject by simp
      have ns: "no_status r" using al att True Reject by simp
      show ?thesis
      proof (cases "f < N")
        case True
        have eq: "step e w = addFailedCall ?c (w\<lparr>thens := (thens w)(k := None)\<rparr>)"
          unfolding Reject \<open>j = k\<close>
          by (rule requeue_step [OF fl _ _ ns, where pol = pol]) (use pol lim True in simp_all)
        have c': "?c\<lparr>retryCount := retryCount ?c + 1\<rparr> =
                   \<lparr>method = m, args = as, promise = p, retryCount = int (f + 1)\<rparr>"
          by simp
        have "\<lparr>method = m, args = as, promise = p, retryCount = int (f + 1)\<rparr>
                \<in> set (failedCalls (step e w))"
          and "retryTimer (step e w) \<noteq> None" and "settled_for p (step e w) = []"
          unfolding eq using st c'
          by (simp_all add: addFailedCall_fields settled_for_def del: of_nat_add of_nat_Suc)
        then have "tracked m as p N (f + 1) (f + 1) (step e w)"
          using True unfolding tracked_def by simp
        then show ?thesis using fo d by simp
      next
        case False
        then have fN: "f = N" using f by simp
        let ?s = "Rejected p [CallRecord ?c]"
        have eq: "step e w = w\<lparr>thens := (thens w)(k := None), settled := settled w @ [?s]\<rparr>"
          unfolding Reject \<open>j = k\<close>
          using finalize_at_limit [OF fl, of pol r] pol lim fN by simp
        have "finished p (step e w)" and "settled_for p (step e w) = [?s]"
          unfolding eq settled_for_def
          using settle_finishes [OF ok fl, of ?s] by simp_all
        then have "tracked m as p N (N + 1) (N + 1) (step e w)"
          using fN unfolding tracked_def by simp
        then show ?thesis using fo d fN by simp
      qed
    qed
  next
    case (Timeout h)
    show ?thesis
    proof (cases "timers w h")
      case None
      then have "step e w = w" using Timeout by simp
      then show ?thesis using stay [of w] fl st Timeout by (simp add: dispatched_def)
    next
      case (Some dl)
      have "length (dispatched p w (step e w)) = length (queued p w)"
        unfolding Timeout by (rule dispatched_timeout [OF Some])
      then have d: "length (dispatched p w (step e w)) = 0"
        using queued_none_in_flight [OF ok fl] by simp
      have "thens (step e w) k = Some ?c" and "settled_for p (step e w) = []"
        unfolding Timeout drain [OF Some] using fl st kb by (simp_all add: settled_for_def)
      then show ?thesis using stay d Timeout by simp
    qed
  next
    case Dispose
    have d: "dispatched p w (step e w) = []"
      unfolding Dispose by (rule dispatched_same_log) (rule calls_settle_step)
    have "thens (step e w) k = Some ?c" and "settled_for p (step e w) = []"
      using fl st Dispose
      by (auto simp: dispose_def Let_def settled_for_def split: option.splits)
    then show ?thesis using stay d Dispose by simp
  qed
qed

lemma tracked_queued_step:
  assumes s: "sound w" and al: "allowed p e w" and f: "f \<le> N"
    and qu: "\<lparr>method = m, args = as, promise = p, retryCount = int f\<rparr> \<in> set (failedCalls w)"
    and tm: "retryTimer w \<noteq> None" and st: "settled_for p w = []"
  shows "tracked m as p N (f + (if failure_of p e w then 1 else 0))
           (f + length (dispatched p w (step e w))) (step e w)"
proof -
  let ?c = "\<lparr>method = m, args = as, promise = p, retryCount = int f\<rparr>"
  have ok: "promises_ok w" and keys: "keys_ok w" using s by (simp_all add: sound_def)
  have att: "\<not> attempt_of p w j" for j
    using no_attempt_queued [OF ok qu] by simp
  have nf: "\<not> failure_of p e w" using att by (cases e) simp_all
  have lt: "p < next_promise w" using promises_okD(2) [OF ok qu] by simp
  have stay: "tracked m as p N f f w'"
    if "?c \<in> set (failedCalls w')" and "retryTimer w' \<noteq> None" and "settled_for p w' = []"
    for w'
    using that f unfolding tracked_def by blast
  show ?thesis
  proof (cases e)
    case (Call m' as')
    have d: "dispatched p w (step e w) = []"
      unfolding Call using dispatched_call_other [OF keys lt] .
    have "?c \<in> set (failedCalls (step e w))" and "retryTimer (step e w) \<noteq> None"
      and "settled_for p (step e w) = []"
      using qu tm st Call
      by (auto simp: transportMethod_def sendTransportCall_def invoke_def settled_for_def
            split: option.splits)
    then show ?thesis using stay d nf by simp
  next
    case (Fulfil j v)
    have d: "dispatched p w (step e w) = []"
      unfolding Fulfil by (rule dispatched_same_log) (rule calls_settle_step)
    have "?c \<in> set (failedCalls (step e w)) \<and> retryTimer (step e w) \<noteq> None
          \<and> settled_for p (step e w) = []"
    proof (cases "thens w j")
      case None
      then show ?thesis using qu tm st Fulfil by simp
    next
      case (Some x)
      have "promise x \<noteq> p" using att [of j] Some by (simp add: attempt_of_def)
      then show ?thesis
        using settle_other(1,3,4) [OF Some, of p e v] Fulfil qu tm st by simp
    qed
    then show ?thesis using stay d nf by simp
  next
    case (Reject j r)
    have d: "dispatched p w (step e w) = []"
      unfolding Reject by (rule dispatched_same_log) (rule calls_settle_step)
    have "?c \<in> set (failedCalls (step e w)) \<and> retryTimer (step e w) \<noteq> None
          \<and> settled_for p (step e w) = []"
    proof (cases "thens w j")
      case None
      then show ?thesis using qu tm st Reject by simp
    next
      case (Some x)
      have "promise x \<noteq> p" using att [of j] Some by (simp add: attempt_of_def)
      then show ?thesis
        using settle_other(1,3,4) [OF Some, of p e _ r] Reject qu tm st by simp
    qed
    then show ?thesis using stay d nf by simp
  next
    case (Timeout h)
    show ?thesis
    proof (cases "timers w h")
      case None
      then have "step e w = w" using Timeout by simp
      then show ?thesis using stay [of w] qu tm st nf by (simp add: dispatched_def)
    next
      case (Some dl)
      let ?n = "length (calls (transport w))"
      have "length (dispatched p w (step e w)) = length (queued p w)"
        unfolding Timeout by (rule dispatched_timeout [OF Some])
      then have d: "length (dispatched p w (step e w)) = 1"
        using queued_single [OF ok qu] by simp
      obtain i where i: "i < length (failedCalls w)" and ci: "failedCalls w ! i = ?c"
        using qu by (auto simp: in_set_conv_nth)
      have "thens (step e w) (?n + i) = Some ?c" and "settled_for p (step e w) = []"
        unfolding Timeout drain [OF Some] using i ci st by (simp_all add: settled_for_def)
      then have "tracked m as p N f (f + 1) (step e w)"
        using f unfolding tracked_def by blast
      then show ?thesis using d nf by simp
    qed
  next
    case Dispose
    have d: "dispatched p w (step e w) = []"
      unfolding Dispose by (rule dispatched_same_log) (rule calls_settle_step)
    have q: "failedCalls (step e w) = []" and t: "thens (step e w) = thens w"
      and st': "settled (step e w) = settled w" and n: "next_promise (step e w) = next_promise w"
      using Dispose by (auto simp: dispose_def Let_def split: option.splits)
    have "promise x \<noteq> p" if "x \<in> pending (step e w)" for x
    proof
      assume px: "promise x = p"
      from that obtain j where "thens w j = Some x"
        unfolding pending_iff q t by auto
      then have "attempt_of p w j" using px by (simp add: attempt_of_def)
      then show False using att by simp
    qed
    then have "p \<notin> promise ` pending (step e w)" by (metis imageE)
    then have "finished p (step e w)" using lt n by (simp add: finished_def)
    moreover have "settled_for p (step e w) = []" using st st' by (simp add: settled_for_def)
    ultimately have "tracked m as p N f f (step e w)"
      using f unfolding tracked_def by blast
    then show ?thesis using d nf by simp
  qed
qed

lemma tracked_done_step:
  assumes s: "sound w" and fin: "finished p w"
  shows "finished p (step e w)" and "settled_for p (step e w) = settled_for p w"
    and "\<not> failure_of p e w" and "length (dispatched p w (step e w)) = 0"
proof -
  have keys: "keys_ok w" using s by (simp add: sound_def)
  show "finished p (step e w)" and "settled_for p (step e w) = settled_for p w"
    using finished_step [OF fin, of e] by (simp_all add: settled_for_def)
  show "\<not> failure_of p e w" using no_attempt_finished [OF fin] by (cases e) simp_all
  have lt: "p < next_promise w" using fin by (simp add: finished_def)
  show "length (dispatched p w (step e w)) = 0"
  proof (cases e)
    case (Call m as)
    then show ?thesis using dispatched_call_other [OF keys lt] by simp
  next
    case (Fulfil j v)
    then show ?thesis using dispatched_same_log [OF calls_settle_step(1)] by simp
  next
    case (Reject j r)
    then show ?thesis using dispatched_same_log [OF calls_settle_step(2)] by simp
  next
    case (Timeout h)
    show ?thesis
    proof (cases "timers w h")
      case None
      then show ?thesis using Timeout by (simp add: dispatched_def)
    next
      case (Some dl)
      then show ?thesis
        using dispatched_timeout [OF Some, of p] queued_none_finished [OF fin] Timeout by simp
    qed
  next
    case Dispose
    then show ?thesis using dispatched_same_log [OF calls_settle_step(3)] by simp
  qed
qed

lemma tracked_step:
  assumes "sound w" and "methods w m = Some pol" and "retryLimit pol = int N"
    and "allowed p e w" and "tracked m as p N f d w"
  shows "tracked m as p N (f + (if failure_of p e w then 1 else 0))
           (d + length (dispatched p w (step e w))) (step e w)"
proof -
  let ?c = "\<lambda>n. \<lparr>method = m, args = as, promise = p, retryCount = int n\<rparr>"
  from assms(5) consider
      (flight) k where "f \<le> N" "d = f + 1" "settled_for p w = []" "thens w k = Some (?c f)"
    | (queue) "f \<le> N" "d = f" "settled_for p w = []" "retryTimer w \<noteq> None"
        "?c f \<in> set (failedCalls w)"
    | (dropped) "f \<le> N" "d = f" "settled_for p w = []" "finished p w"
    | (rejected) "f = N + 1" "d = N + 1" "finished p w"
        "settled_for p w = [Rejected p [CallRecord (?c N)]]"
    unfolding tracked_def by blast
  then show ?thesis
  proof cases
    case flight
    show ?thesis
      using tracked_flight_step [OF assms(1,2,3,4) flight(1,4,3)] flight(2) by simp
  next
    case queue
    show ?thesis
      using tracked_queued_step [OF assms(1,4) queue(1,5,4,3)] queue(2) by simp
  next
    case dropped
    show ?thesis
      using tracked_done_step [OF assms(1) dropped(4), of e] dropped
      unfolding tracked_def by simp
  next
    case rejected
    show ?thesis
      using tracked_done_step [OF assms(1) rejected(3), of e] rejected
      unfolding tracked_def by simp
  qed
qed

lemma tracked_run:
  assumes "sound w" and "methods w m = Some pol" and "retryLimit pol = int N"
    and "fails_only p es w" and "tracked m as p N f d w"
  shows "tracked m as p N (f + failures p es w) (d + dispatches p es w) (exec es w)"
  using assms
proof (induction es arbitrary: w f d)
  case Nil
  then show ?case by (simp add: exec_def)
next
  case (Cons e es)
  let ?w = "step e w"
  have al: "allowed p e w" and rest: "fails_only p es ?w" using Cons.prems(4) by simp_all
  have t: "tracked m as p N (f + (if failure_of p e w then 1 else 0))
             (d + length (dispatched p w ?w)) ?w"
    by (rule tracked_step [OF Cons.prems(1,2,3) al Cons.prems(5)])
  have "tracked m as p N (f + (if failure_of p e w then 1 else 0) + failures p es ?w)
          (d + length (dispatched p w ?w) + dispatches p es ?w) (exec es ?w)"
    by (rule Cons.IH [OF sound_step [OF Cons.prems(1)] _ Cons.prems(3) rest t])
       (simp add: Cons.prems(2))
  then show ?case by (simp add: exec_def add.assoc)
qed

lemma tracked_first:
  assumes "sound w" and "methods w m = Some pol" and "retryLimit pol = int N" and "0 < N"
  shows "tracked m as (next_promise w) N 0 1 (step (Call m as) w)"
    and "length (dispatched (next_promise w) w (step (Call m as) w)) = 1"
proof -
  let ?p = "next_promise w"
  let ?n = "length (calls (transport w))"
  let ?c = "\<lparr>method = m, args = as, promise = ?p, retryCount = 0\<rparr>"
  have ok: "promises_ok w" using assms(1) by (simp add: sound_def)
  have eq: "step (Call m as) w =
        sendTransportCall ?c (w\<lparr>next_promise := Suc ?p\<rparr>)"
    using assms(2,3,4) by (simp add: transportMethod_def)
  have t: "thens (step (Call m as) w) ?n = Some ?c"
    and l: "length (calls (transport (step (Call m as) w))) = Suc ?n"
    and s: "settled (step (Call m as) w) = settled w"
    unfolding eq by (simp_all add: sendTransportCall_def invoke_def)
  have "settled_promise z \<noteq> ?p" if "z \<in> set (settled w)" for z
    using promises_okD(3) [OF ok that] by simp
  then have "settled_for ?p (step (Call m as) w) = []"
    unfolding settled_for_def s by (simp add: filter_empty_conv)
  then show "tracked m as ?p N 0 1 (step (Call m as) w)"
    using t unfolding tracked_def by auto
  show "length (dispatched ?p w (step (Call m as) w)) = 1"
    unfolding dispatched_def l using t by (simp add: attempt_of_def)
qed



end
